theory Spec2Isabelle
  imports Main "HOL-Library.Word"
begin

section \<open>The lock word\<close>

text \<open>
  The read/write lock of \<^verbatim>\<open>mtx_rw.c\<close> is one 64-bit word holding four 16-bit
  counters. All arithmetic on the counters is arithmetic on \<open>16 word\<close>, so every
  increment wraps at 64K as the C code's \<^verbatim>\<open>uint16_t\<close> does.
\<close>

type_synonym u16 = "16 word"

text \<open>
  Modelled from the spec: the declaration of \<^verbatim>\<open>WT_RWLOCK\<close> lives in a header that is
  not part of the sources. The spec (section 3) and the comment at the head of
  \<^verbatim>\<open>mtx_rw.c\<close> give its fields: \<open>writers\<close>, \<open>readers\<close>, \<open>next\<close> and \<open>writers_active\<close>,
  four unsigned 16-bit counters packed into one 64-bit word. The view \<^verbatim>\<open>l->u\<close> is the
  whole word, that is all four fields together (record equality below); the view
  \<^verbatim>\<open>l->i.wr\<close> is the half of the word that holds \<open>writers\<close> and \<open>readers\<close>.
\<close>

record rwlock =
  writers :: u16
  readers :: u16
  "next" :: u16
  writers_active :: u16

text \<open>The word with value 0, as \<^verbatim>\<open>l->u = 0\<close> leaves it.\<close>

definition zero_lock :: rwlock where
  "zero_lock = \<lparr>writers = 0, readers = 0, next = 0, writers_active = 0\<rparr>"

text \<open>The return value of the try functions: \<open>Success\<close> stands for 0.\<close>

datatype ret = Success | EBUSY

section \<open>Atomic primitives\<close>

text \<open>
  Modelled from the spec: the \<^verbatim>\<open>__wt_atomic_*\<close> functions are declared outside the
  sources. \<open>fetch_add\<close> returns the value before the addition together with the
  stored value, \<open>add\<close> and \<open>sub\<close> give the stored value, and the 64-bit
  compare-and-swap stores the new word only if the current word equals the expected
  one and reports whether it did.
\<close>

definition atomic_fetch_add16 :: "u16 \<Rightarrow> u16 \<Rightarrow> u16 \<times> u16" where
  "atomic_fetch_add16 v d = (v, v + d)"

definition atomic_add16 :: "u16 \<Rightarrow> u16 \<Rightarrow> u16" where
  "atomic_add16 v d = v + d"

definition atomic_sub16 :: "u16 \<Rightarrow> u16 \<Rightarrow> u16" where
  "atomic_sub16 v d = v - d"

definition atomic_cas64 :: "rwlock \<Rightarrow> rwlock \<Rightarrow> rwlock \<Rightarrow> bool \<times> rwlock" where
  "atomic_cas64 l old new = (if l = old then (True, new) else (False, l))"

text \<open>The plain store \<^verbatim>\<open>l->i.wr = new.i.wr\<close> of the writers/readers half.\<close>

definition store_wr :: "rwlock \<Rightarrow> rwlock \<Rightarrow> rwlock" where
  "store_wr l new = l\<lparr>writers := writers new, readers := readers new\<rparr>"

section \<open>The operations, one caller at a time\<close>

text \<open>
  Each function takes the lock word and returns the word it leaves behind. The
  session argument only feeds the statistics counters and is left out. The pause,
  yield and sleep calls do not touch the lock word.
\<close>

definition rwlock_init :: "rwlock \<Rightarrow> rwlock" where
  "rwlock_init l = zero_lock"

definition rwlock_destroy :: "rwlock \<Rightarrow> rwlock" where
  "rwlock_destroy l = zero_lock"

text \<open>
  \<^verbatim>\<open>__wt_try_readlock\<close> first copies the word (\<^verbatim>\<open>new = old = *l\<close>) and then works on
  the copy; \<open>try_readlock_swap old l\<close> is the rest of the function, run when the word
  in memory is \<open>l\<close>.
\<close>

definition try_readlock_swap :: "rwlock \<Rightarrow> rwlock \<Rightarrow> ret \<times> rwlock" where
  "try_readlock_swap old l =
     (let new = old in
      if readers old \<noteq> next old then (EBUSY, l)
      else
        let new = new\<lparr>next := next old + 1\<rparr>;
            new = new\<lparr>readers := next new\<rparr>
        in case atomic_cas64 l old new of
             (True, l') \<Rightarrow> (Success, l')
           | (False, l') \<Rightarrow> (EBUSY, l'))"

definition try_readlock :: "rwlock \<Rightarrow> ret \<times> rwlock" where
  "try_readlock l = (let old = l in try_readlock_swap old l)"

text \<open>
  \<^verbatim>\<open>__wt_readlock_spin\<close> retries \<^verbatim>\<open>__wt_try_readlock\<close> until it succeeds. With no other
  caller the word never changes between two tries, so the loop may run forever:
  \<open>None\<close> is "does not return".
\<close>

partial_function (option) readlock_spin :: "rwlock \<Rightarrow> rwlock option" where
  "readlock_spin l =
     (case try_readlock l of
        (Success, l') \<Rightarrow> Some l'
      | (EBUSY, l') \<Rightarrow> readlock_spin l')"

declare readlock_spin.simps [code]

text \<open>
  The wait loop of \<^verbatim>\<open>__wt_readlock\<close>: \<^verbatim>\<open>for (pause_cnt = 0; ticket != l->s.readers;)\<close>.
  The body only counts the pauses.
\<close>

partial_function (option) readlock_wait :: "rwlock \<Rightarrow> u16 \<Rightarrow> nat \<Rightarrow> nat option" where
  "readlock_wait l ticket pause_cnt =
     (if ticket \<noteq> readers l then readlock_wait l ticket (pause_cnt + 1)
      else Some pause_cnt)"

declare readlock_wait.simps [code]

text \<open>
  The first statement of \<^verbatim>\<open>__wt_readlock\<close> and of \<^verbatim>\<open>__wt_writelock\<close>:
  \<^verbatim>\<open>ticket = __wt_atomic_fetch_add16(&l->s.next, 1)\<close>.
\<close>

definition take_ticket :: "rwlock \<Rightarrow> u16 \<times> rwlock" where
  "take_ticket l =
     (let (ticket, n) = atomic_fetch_add16 (next l) 1 in (ticket, l\<lparr>next := n\<rparr>))"

definition readlock_ticket :: "rwlock \<Rightarrow> u16 \<times> rwlock" where
  "readlock_ticket l = take_ticket l"

text \<open>The statement after the wait loop: \<^verbatim>\<open>++l->s.readers\<close>.\<close>

definition readlock_enter :: "rwlock \<Rightarrow> rwlock" where
  "readlock_enter l = l\<lparr>readers := readers l + 1\<rparr>"

definition readlock :: "rwlock \<Rightarrow> rwlock option" where
  "readlock l =
     (let (ticket, l1) = readlock_ticket l in
      case readlock_wait l1 ticket 0 of
        None \<Rightarrow> None
      | Some pause_cnt \<Rightarrow> Some (readlock_enter l1))"

definition readunlock :: "rwlock \<Rightarrow> rwlock" where
  "readunlock l = l\<lparr>writers := atomic_add16 (writers l) 1\<rparr>"

definition try_writelock_swap :: "rwlock \<Rightarrow> rwlock \<Rightarrow> ret \<times> rwlock" where
  "try_writelock_swap old l =
     (let new = old in
      if writers old \<noteq> next old then (EBUSY, l)
      else
        let new = new\<lparr>next := next new + 1\<rparr>;
            new = new\<lparr>writers_active := writers_active new + 1\<rparr>
        in case atomic_cas64 l old new of
             (True, l') \<Rightarrow> (Success, l')
           | (False, l') \<Rightarrow> (EBUSY, l'))"

definition try_writelock :: "rwlock \<Rightarrow> ret \<times> rwlock" where
  "try_writelock l = (let old = l in try_writelock_swap old l)"

text \<open>
  The two atomic statements at the head of \<^verbatim>\<open>__wt_writelock\<close>: take a ticket and
  count the writer as active.
\<close>

definition writelock_active :: "rwlock \<Rightarrow> rwlock" where
  "writelock_active l = l\<lparr>writers_active := atomic_add16 (writers_active l) 1\<rparr>"

definition writelock_ticket :: "rwlock \<Rightarrow> u16 \<times> rwlock" where
  "writelock_ticket l =
     (let (ticket, l1) = take_ticket l;
          l2 = writelock_active l1
      in (ticket, l2))"

text \<open>The wait loop of \<^verbatim>\<open>__wt_writelock\<close>: \<^verbatim>\<open>for (pause_cnt = 0; ticket != l->s.writers;)\<close>.\<close>

partial_function (option) writelock_wait :: "rwlock \<Rightarrow> u16 \<Rightarrow> nat \<Rightarrow> nat option" where
  "writelock_wait l ticket pause_cnt =
     (if ticket \<noteq> writers l then writelock_wait l ticket (pause_cnt + 1)
      else Some pause_cnt)"

declare writelock_wait.simps [code]

definition writelock :: "rwlock \<Rightarrow> rwlock option" where
  "writelock l =
     (let (ticket, l2) = writelock_ticket l in
      case writelock_wait l2 ticket 0 of
        None \<Rightarrow> None
      | Some pause_cnt \<Rightarrow> Some l2)"

text \<open>
  \<^verbatim>\<open>__wt_writeunlock\<close> in its three steps: the atomic decrement of \<open>writers_active\<close>,
  the copy \<^verbatim>\<open>new = *l\<close>, and the increments on the copy with the store of its
  writers/readers half.
\<close>

definition writeunlock_inactive :: "rwlock \<Rightarrow> rwlock" where
  "writeunlock_inactive l = l\<lparr>writers_active := atomic_sub16 (writers_active l) 1\<rparr>"

definition writeunlock_store :: "rwlock \<Rightarrow> rwlock \<Rightarrow> rwlock" where
  "writeunlock_store new l =
     (let new = new\<lparr>writers := writers new + 1\<rparr>;
          new = new\<lparr>readers := readers new + 1\<rparr>
      in store_wr l new)"

definition writeunlock :: "rwlock \<Rightarrow> rwlock" where
  "writeunlock l =
     (let l1 = writeunlock_inactive l;
          new = l1
      in writeunlock_store new l1)"

definition rwlock_islocked :: "rwlock \<Rightarrow> bool" where
  "rwlock_islocked l = (writers l \<noteq> next l \<or> readers l \<noteq> next l)"

section \<open>Calls and rounds\<close>

text \<open>The seven functions of \<^verbatim>\<open>mtx_rw.c\<close> that a caller can call on a lock.\<close>

datatype call =
  Try_readlock | Readlock_spin | Readlock | Readunlock
  | Try_writelock | Writelock | Writeunlock

text \<open>
  An idle lock: nobody holds it or waits for it. \<open>write_rounds n\<close> runs \<open>n\<close> rounds of
  write lock followed by write unlock and gives \<open>None\<close> as soon as one acquisition
  does not return; \<open>try_write_rounds\<close> does the same with the try function and gives
  \<open>None\<close> as soon as one returns \<open>EBUSY\<close>.
\<close>

definition idle :: "rwlock \<Rightarrow> bool" where
  "idle l = (writers l = readers l \<and> readers l = next l \<and> writers_active l = 0)"

fun try_write_rounds :: "nat \<Rightarrow> rwlock \<Rightarrow> rwlock option" where
  "try_write_rounds 0 l = Some l"
| "try_write_rounds (Suc n) l =
     (case try_writelock l of
        (Success, l') \<Rightarrow> try_write_rounds n (writeunlock l')
      | (EBUSY, l') \<Rightarrow> None)"

fun write_rounds :: "nat \<Rightarrow> rwlock \<Rightarrow> rwlock option" where
  "write_rounds 0 l = Some l"
| "write_rounds (Suc n) l =
     (case writelock l of
        Some l' \<Rightarrow> write_rounds n (writeunlock l')
      | None \<Rightarrow> None)"

section \<open>Callers running side by side\<close>

text \<open>
  With several callers the functions above do not run in one piece: between any two
  accesses of one caller to the lock word, other callers may read and write it. Each
  access to the shared word is one step. \<open>pc\<close> says where a caller stands, with the
  values it keeps in its local variables:
  \<^item> \<open>Idle\<close>: in none of the functions, holding nothing;
  \<^item> \<open>Try_read spin old\<close>: in \<^verbatim>\<open>__wt_try_readlock\<close> after the copy \<^verbatim>\<open>new = old = *l\<close>
    (\<open>spin\<close> says that \<^verbatim>\<open>__wt_readlock_spin\<close> made the call);
  \<^item> \<open>Spinning\<close>: in the loop of \<^verbatim>\<open>__wt_readlock_spin\<close> after a failed try;
  \<^item> \<open>Read_wait ticket\<close>: in the wait loop of \<^verbatim>\<open>__wt_readlock\<close>;
  \<^item> \<open>Read_enter\<close>: past the wait loop, before \<^verbatim>\<open>++l->s.readers\<close>, which is not atomic
    and so is a load (leading to \<open>Read_store v\<close>) followed by a store;
  \<^item> \<open>Reading\<close>: the read lock is held;
  \<^item> \<open>Try_write old\<close>: in \<^verbatim>\<open>__wt_try_writelock\<close> after the copy;
  \<^item> \<open>Write_active ticket\<close>: in \<^verbatim>\<open>__wt_writelock\<close> after the fetch-and-add on \<open>next\<close>;
  \<^item> \<open>Write_wait ticket\<close>: in the wait loop of \<^verbatim>\<open>__wt_writelock\<close>;
  \<^item> \<open>Writing\<close>: the write lock is held;
  \<^item> \<open>Unlock_copy\<close>: in \<^verbatim>\<open>__wt_writeunlock\<close> after the decrement of \<open>writers_active\<close>;
  \<^item> \<open>Unlock_store new\<close>: after the copy \<^verbatim>\<open>new = *l\<close>, before the store of its
    writers/readers half.
  A caller that is \<open>Idle\<close> may call any of the five acquire functions, one that is
  \<open>Reading\<close> may call \<^verbatim>\<open>__wt_readunlock\<close>, one that is \<open>Writing\<close> may call
  \<^verbatim>\<open>__wt_writeunlock\<close>; any other call is not made (the step changes nothing). Inside a
  function the call argument is not looked at.
\<close>

datatype pc =
    Idle
  | Try_read bool rwlock
  | Spinning
  | Read_wait u16
  | Read_enter
  | Read_store u16
  | Reading
  | Try_write rwlock
  | Write_active u16
  | Write_wait u16
  | Writing
  | Unlock_copy
  | Unlock_store rwlock

fun thread_step :: "call \<Rightarrow> pc \<Rightarrow> rwlock \<Rightarrow> pc \<times> rwlock" where
  "thread_step c Idle l =
     (case c of
        Try_readlock \<Rightarrow> (Try_read False l, l)
      | Readlock_spin \<Rightarrow> (Try_read True l, l)
      | Readlock \<Rightarrow> (let (ticket, l') = take_ticket l in (Read_wait ticket, l'))
      | Try_writelock \<Rightarrow> (Try_write l, l)
      | Writelock \<Rightarrow> (let (ticket, l') = take_ticket l in (Write_active ticket, l'))
      | Readunlock \<Rightarrow> (Idle, l)
      | Writeunlock \<Rightarrow> (Idle, l))"
| "thread_step c (Try_read spin old) l =
     (case try_readlock_swap old l of
        (Success, l') \<Rightarrow> (Reading, l')
      | (EBUSY, l') \<Rightarrow> (if spin then Spinning else Idle, l'))"
| "thread_step c Spinning l = (Try_read True l, l)"
| "thread_step c (Read_wait ticket) l =
     (if ticket \<noteq> readers l then (Read_wait ticket, l) else (Read_enter, l))"
| "thread_step c Read_enter l = (Read_store (readers l), l)"
| "thread_step c (Read_store v) l = (Reading, l\<lparr>readers := v + 1\<rparr>)"
| "thread_step c Reading l =
     (case c of Readunlock \<Rightarrow> (Idle, readunlock l) | _ \<Rightarrow> (Reading, l))"
| "thread_step c (Try_write old) l =
     (case try_writelock_swap old l of
        (Success, l') \<Rightarrow> (Writing, l')
      | (EBUSY, l') \<Rightarrow> (Idle, l'))"
| "thread_step c (Write_active ticket) l = (Write_wait ticket, writelock_active l)"
| "thread_step c (Write_wait ticket) l =
     (if ticket \<noteq> writers l then (Write_wait ticket, l) else (Writing, l))"
| "thread_step c Writing l =
     (case c of Writeunlock \<Rightarrow> (Unlock_copy, writeunlock_inactive l) | _ \<Rightarrow> (Writing, l))"
| "thread_step c Unlock_copy l = (Unlock_store l, l)"
| "thread_step c (Unlock_store new) l = (Idle, writeunlock_store new l)"

text \<open>
  A schedule is a list of pairs: which caller takes the next step, and which function
  it calls if it stands between two calls. \<open>run\<close> executes a schedule.
\<close>

record config =
  lk :: rwlock
  pcs :: "nat \<Rightarrow> pc"

definition init_config :: config where
  "init_config = \<lparr>lk = rwlock_init zero_lock, pcs = (\<lambda>t. Idle)\<rparr>"

definition step :: "nat \<times> call \<Rightarrow> config \<Rightarrow> config" where
  "step x s =
     (case x of (t, c) \<Rightarrow>
        (case thread_step c (pcs s t) (lk s) of
           (p', l') \<Rightarrow> \<lparr>lk = l', pcs = (pcs s)(t := p')\<rparr>))"

fun run :: "(nat \<times> call) list \<Rightarrow> config \<Rightarrow> config" where
  "run [] s = s"
| "run (x # xs) s = run xs (step x s)"

text \<open>
  A caller holds the write lock from the return of its acquisition up to the last
  store of \<^verbatim>\<open>__wt_writeunlock\<close>, and the read lock from the return of its acquisition up
  to the atomic add of \<^verbatim>\<open>__wt_readunlock\<close>.
\<close>

fun holds_write :: "pc \<Rightarrow> bool" where
  "holds_write Writing = True"
| "holds_write Unlock_copy = True"
| "holds_write (Unlock_store new) = True"
| "holds_write p = False"

definition holds_read :: "pc \<Rightarrow> bool" where
  "holds_read p = (p = Reading)"

text \<open>
  The bookkeeping behind mutual exclusion. A caller is in the queue from the moment it
  has a ticket until \<open>readers\<close> moves past that ticket; a caller that has been granted
  the lock and is still in the queue has the ticket \<open>readers\<close>. The tickets in the queue
  are pairwise different and lie in the window of \<open>next - readers\<close> tickets that
  starts at \<open>readers\<close>; \<open>readers - writers\<close> counts the callers that hold a read lock;
  and the local copies that are still to be stored agree with the word.
\<close>

fun in_queue :: "pc \<Rightarrow> bool" where
  "in_queue (Read_wait ticket) = True"
| "in_queue Read_enter = True"
| "in_queue (Read_store v) = True"
| "in_queue (Write_active ticket) = True"
| "in_queue (Write_wait ticket) = True"
| "in_queue Writing = True"
| "in_queue Unlock_copy = True"
| "in_queue (Unlock_store new) = True"
| "in_queue p = False"

fun ticket_of :: "rwlock \<Rightarrow> pc \<Rightarrow> u16" where
  "ticket_of l (Read_wait ticket) = ticket"
| "ticket_of l (Write_active ticket) = ticket"
| "ticket_of l (Write_wait ticket) = ticket"
| "ticket_of l p = readers l"

definition queued :: "(nat \<Rightarrow> pc) \<Rightarrow> nat set" where
  "queued f = {t. in_queue (f t)}"

definition reading :: "(nat \<Rightarrow> pc) \<Rightarrow> nat set" where
  "reading f = {t. f t = Reading}"

definition only_threads :: "nat \<Rightarrow> (nat \<Rightarrow> pc) \<Rightarrow> bool" where
  "only_threads K f \<longleftrightarrow> (\<forall>t. K \<le> t \<longrightarrow> f t = Idle)"

definition queue_ok :: "rwlock \<Rightarrow> (nat \<Rightarrow> pc) \<Rightarrow> bool" where
  "queue_ok l f \<longleftrightarrow>
     next l - readers l = of_nat (card (queued f)) \<and>
     (\<forall>t. in_queue (f t) \<longrightarrow> unat (ticket_of l (f t) - readers l) < card (queued f)) \<and>
     (\<forall>t t'. in_queue (f t) \<longrightarrow> in_queue (f t') \<longrightarrow>
        ticket_of l (f t) = ticket_of l (f t') \<longrightarrow> t = t')"

definition readers_ok :: "rwlock \<Rightarrow> (nat \<Rightarrow> pc) \<Rightarrow> bool" where
  "readers_ok l f \<longleftrightarrow>
     readers l - writers l = of_nat (card (reading f)) \<and>
     (\<forall>t. holds_write (f t) \<longrightarrow> reading f = {})"

definition copies_ok :: "rwlock \<Rightarrow> (nat \<Rightarrow> pc) \<Rightarrow> bool" where
  "copies_ok l f \<longleftrightarrow>
     (\<forall>t v. f t = Read_store v \<longrightarrow> v = readers l) \<and>
     (\<forall>t new. f t = Unlock_store new \<longrightarrow>
        writers new = writers l \<and> readers new = readers l)"

definition lock_inv :: "nat \<Rightarrow> config \<Rightarrow> bool" where
  "lock_inv K s \<longleftrightarrow>
     only_threads K (pcs s) \<and> queue_ok (lk s) (pcs s) \<and>
     readers_ok (lk s) (pcs s) \<and> copies_ok (lk s) (pcs s)"

text \<open>
  A schedule with 65537 callers: caller 0 takes a read lock, callers 1 to 65535 each
  take a ticket for a write lock, which wraps \<open>next\<close> around to 0, and caller 65536
  then tries for a write lock.
\<close>

definition wrap_schedule :: "(nat \<times> call) list" where
  "wrap_schedule =
     replicate 4 (0, Readlock) @ map (\<lambda>t. (t, Writelock)) [1..<65536] @
     replicate 2 (65536, Try_writelock)"

text \<open>
  The three counters read without wrap-around. \<open>counted_run\<close> executes a schedule as
  \<open>run\<close> does and keeps three counts beside the lock word: every time a step moves a
  16-bit counter of the word, the matching count advances by the same distance
  (the difference of the new and the old value, taken modulo 2^16). So the counts start
  at 0 with the word, are never reduced, and each 16-bit counter is its count modulo
  2^16 by construction.
\<close>

record counts =
  tickets_issued :: nat
  writers_served :: nat
  readers_served :: nat

definition zero_counts :: counts where
  "zero_counts = \<lparr>tickets_issued = 0, writers_served = 0, readers_served = 0\<rparr>"

definition advance :: "rwlock \<Rightarrow> rwlock \<Rightarrow> counts \<Rightarrow> counts" where
  "advance l l' c =
     \<lparr>tickets_issued = tickets_issued c + unat (next l' - next l),
      writers_served = writers_served c + unat (writers l' - writers l),
      readers_served = readers_served c + unat (readers l' - readers l)\<rparr>"

definition counted_step :: "nat \<times> call \<Rightarrow> config \<times> counts \<Rightarrow> config \<times> counts" where
  "counted_step x sc =
     (case sc of (s, c) \<Rightarrow> (step x s, advance (lk s) (lk (step x s)) c))"


text \<open>
  A caller has an outstanding request from the step in which it takes its ticket (for
  the try functions: from the successful compare-and-swap) until its release is
  complete, that is until the atomic add of \<^verbatim>\<open>__wt_readunlock\<close> or the store of
  \<^verbatim>\<open>__wt_writeunlock\<close>. A caller that waits in \<^verbatim>\<open>__wt_readlock\<close> or \<^verbatim>\<open>__wt_writelock\<close>
  has an outstanding request; one that has only copied the word in a try function has
  not.
\<close>

fun outstanding :: "pc \<Rightarrow> bool" where
  "outstanding Idle = False"
| "outstanding (Try_read spin old) = False"
| "outstanding Spinning = False"
| "outstanding (Try_write old) = False"
| "outstanding p = True"


text \<open>
  The worked example of the source up to the queued writer: callers 0, 1 and 2 take
  read locks, caller 3 calls \<^verbatim>\<open>__wt_writelock\<close> and waits.
\<close>

definition queued_writer_schedule :: "(nat \<times> call) list" where
  "queued_writer_schedule =
     replicate 4 (0, Readlock) @ replicate 4 (1, Readlock) @ replicate 4 (2, Readlock) @
     replicate 3 (3, Writelock)"


text \<open>
  Two callers, no wrap: caller 0 takes the write lock, caller 1 queues for it in
  \<^verbatim>\<open>__wt_writelock\<close>, caller 0 releases. Caller 1 is still in its wait loop.
\<close>

definition handover_schedule :: "(nat \<times> call) list" where
  "handover_schedule =
     replicate 3 (0, Writelock) @ replicate 2 (1, Writelock) @ replicate 3 (0, Writeunlock)"

text \<open>65536 callers each take a read lock through \<^verbatim>\<open>__wt_try_readlock\<close>.\<close>

definition all_readers_schedule :: "(nat \<times> call) list" where
  "all_readers_schedule = concat (map (\<lambda>t. replicate 2 (t, Try_readlock)) [0..<65536])"

section \<open>Basic facts about the wait loops\<close>

lemma readlock_wait_Some: "readlock_wait l ticket n = Some y \<Longrightarrow> ticket = readers l"
  by (rule readlock_wait.raw_induct [where P = "\<lambda>l ticket n y. ticket = readers l"])
     (auto split: if_splits)

lemma readlock_wait_blocked: "ticket \<noteq> readers l \<Longrightarrow> readlock_wait l ticket n = None"
  using readlock_wait_Some by (cases "readlock_wait l ticket n") auto

lemma readlock_wait_granted: "ticket = readers l \<Longrightarrow> readlock_wait l ticket n = Some n"
  by (simp add: readlock_wait.simps)

lemma writelock_wait_Some: "writelock_wait l ticket n = Some y \<Longrightarrow> ticket = writers l"
  by (rule writelock_wait.raw_induct [where P = "\<lambda>l ticket n y. ticket = writers l"])
     (auto split: if_splits)

lemma writelock_wait_blocked: "ticket \<noteq> writers l \<Longrightarrow> writelock_wait l ticket n = None"
  using writelock_wait_Some by (cases "writelock_wait l ticket n") auto

lemma writelock_wait_granted: "ticket = writers l \<Longrightarrow> writelock_wait l ticket n = Some n"
  by (simp add: writelock_wait.simps)

lemma try_readlock_free:
  "readers l = next l \<Longrightarrow>
   try_readlock l = (Success, l\<lparr>next := next l + 1, readers := next l + 1\<rparr>)"
  by (simp add: try_readlock_def try_readlock_swap_def atomic_cas64_def Let_def)

lemma try_readlock_busy: "readers l \<noteq> next l \<Longrightarrow> try_readlock l = (EBUSY, l)"
  by (simp add: try_readlock_def try_readlock_swap_def Let_def)

lemma try_writelock_free:
  "writers l = next l \<Longrightarrow>
   try_writelock l =
     (Success, l\<lparr>next := next l + 1, writers_active := writers_active l + 1\<rparr>)"
  by (simp add: try_writelock_def try_writelock_swap_def atomic_cas64_def Let_def)

lemma try_writelock_busy: "writers l \<noteq> next l \<Longrightarrow> try_writelock l = (EBUSY, l)"
  by (simp add: try_writelock_def try_writelock_swap_def Let_def)

lemma readunlock_eq: "readunlock l = l\<lparr>writers := writers l + 1\<rparr>"
  by (simp add: readunlock_def atomic_add16_def)

lemma writeunlock_eq:
  "writeunlock l =
     l\<lparr>writers := writers l + 1, readers := readers l + 1,
       writers_active := writers_active l - 1\<rparr>"
  by (simp add: writeunlock_def writeunlock_inactive_def writeunlock_store_def store_wr_def
      atomic_sub16_def Let_def)

lemma readlock_free:
  "readers l = next l \<Longrightarrow>
   readlock l = Some (l\<lparr>next := next l + 1, readers := readers l + 1\<rparr>)"
  by (simp add: readlock_def readlock_ticket_def take_ticket_def atomic_fetch_add16_def
      readlock_wait_granted readlock_enter_def)

lemma readlock_blocked: "readers l \<noteq> next l \<Longrightarrow> readlock l = None"
  by (simp add: readlock_def readlock_ticket_def take_ticket_def atomic_fetch_add16_def
      readlock_wait_blocked)

lemma writelock_free:
  "writers l = next l \<Longrightarrow>
   writelock l = Some (l\<lparr>next := next l + 1, writers_active := writers_active l + 1\<rparr>)"
  by (simp add: writelock_def writelock_ticket_def take_ticket_def writelock_active_def atomic_fetch_add16_def atomic_add16_def
      writelock_wait_granted Let_def)

lemma writelock_blocked: "writers l \<noteq> next l \<Longrightarrow> writelock l = None"
  by (simp add: writelock_def writelock_ticket_def take_ticket_def writelock_active_def atomic_fetch_add16_def atomic_add16_def
      writelock_wait_blocked Let_def)

lemma readlock_spin_Some: "readlock_spin l = Some l' \<Longrightarrow> readers l = next l"
  by (rule readlock_spin.raw_induct [where P = "\<lambda>l l'. readers l = next l"])
     (auto simp: try_readlock_def try_readlock_swap_def Let_def atomic_cas64_def
        split: if_splits)

lemma readlock_spin_free:
  "readers l = next l \<Longrightarrow>
   readlock_spin l = Some (l\<lparr>next := next l + 1, readers := next l + 1\<rparr>)"
  by (subst readlock_spin.simps) (simp add: try_readlock_free)

lemma readlock_spin_blocked: "readers l \<noteq> next l \<Longrightarrow> readlock_spin l = None"
  using readlock_spin_Some by (cases "readlock_spin l") auto


section \<open>The try functions\<close>

text \<open>
  C2. For every lock word, \<open>try_readlock\<close> succeeds exactly when \<open>readers = next\<close>.
  On success both \<open>readers\<close> and \<open>next\<close> of the new word are the old \<open>next\<close> plus one
  (modulo 2^16) and \<open>writers\<close> and \<open>writers_active\<close> are unchanged; on every other
  word it returns \<open>EBUSY\<close>.
\<close>

theorem try_readlock_spec:
  "(fst (try_readlock l) = Success \<longleftrightarrow> readers l = next l) \<and>
   (fst (try_readlock l) = EBUSY \<longleftrightarrow> readers l \<noteq> next l) \<and>
   (fst (try_readlock l) = Success \<longrightarrow>
      readers (snd (try_readlock l)) = next l + 1 \<and>
      next (snd (try_readlock l)) = next l + 1 \<and>
      writers (snd (try_readlock l)) = writers l \<and>
      writers_active (snd (try_readlock l)) = writers_active l)"
  by (cases "readers l = next l") (simp_all add: try_readlock_free try_readlock_busy)

theorem try_readlock_spec_witness:
  "fst (try_readlock \<lparr>writers = 4, readers = 65535, next = 65535, writers_active = 0\<rparr>) = Success \<and>
   snd (try_readlock \<lparr>writers = 4, readers = 65535, next = 65535, writers_active = 0\<rparr>)
     = \<lparr>writers = 4, readers = 0, next = 0, writers_active = 0\<rparr>"
  using try_readlock_spec [of "\<lparr>writers = 4, readers = 65535, next = 65535, writers_active = 0\<rparr>"]
  by (simp add: try_readlock_free)

text \<open>
  C3. For every lock word, \<open>try_writelock\<close> succeeds exactly when \<open>writers = next\<close>.
  On success \<open>next\<close> and \<open>writers_active\<close> are each one more (modulo 2^16) and
  \<open>writers\<close> and \<open>readers\<close> are unchanged; on every other word it returns \<open>EBUSY\<close>.
\<close>

theorem try_writelock_spec:
  "(fst (try_writelock l) = Success \<longleftrightarrow> writers l = next l) \<and>
   (fst (try_writelock l) = EBUSY \<longleftrightarrow> writers l \<noteq> next l) \<and>
   (fst (try_writelock l) = Success \<longrightarrow>
      next (snd (try_writelock l)) = next l + 1 \<and>
      writers_active (snd (try_writelock l)) = writers_active l + 1 \<and>
      writers (snd (try_writelock l)) = writers l \<and>
      readers (snd (try_writelock l)) = readers l)"
  by (cases "writers l = next l") (simp_all add: try_writelock_free try_writelock_busy)

theorem try_writelock_spec_witness:
  "fst (try_writelock \<lparr>writers = 65535, readers = 65535, next = 65535, writers_active = 65535\<rparr>)
     = Success \<and>
   snd (try_writelock \<lparr>writers = 65535, readers = 65535, next = 65535, writers_active = 65535\<rparr>)
     = \<lparr>writers = 65535, readers = 65535, next = 0, writers_active = 0\<rparr>"
  using try_writelock_spec
    [of "\<lparr>writers = 65535, readers = 65535, next = 65535, writers_active = 65535\<rparr>"]
  by (simp add: try_writelock_free)

text \<open>
  C9. When \<open>try_readlock\<close> or \<open>try_writelock\<close> returns \<open>EBUSY\<close>, the whole lock word
  is left as it was: none of the four fields changes.
\<close>

theorem try_busy_unchanged:
  "(fst (try_readlock l) = EBUSY \<longrightarrow> snd (try_readlock l) = l) \<and>
   (fst (try_writelock l) = EBUSY \<longrightarrow> snd (try_writelock l) = l)"
proof -
  have "fst (try_readlock l) = EBUSY \<longrightarrow> snd (try_readlock l) = l"
    by (cases "readers l = next l") (simp_all add: try_readlock_free try_readlock_busy)
  moreover have "fst (try_writelock l) = EBUSY \<longrightarrow> snd (try_writelock l) = l"
    by (cases "writers l = next l") (simp_all add: try_writelock_free try_writelock_busy)
  ultimately show ?thesis by simp
qed

theorem try_busy_unchanged_witness:
  "fst (try_readlock \<lparr>writers = 3, readers = 3, next = 5, writers_active = 1\<rparr>) = EBUSY \<and>
   snd (try_readlock \<lparr>writers = 3, readers = 3, next = 5, writers_active = 1\<rparr>)
     = \<lparr>writers = 3, readers = 3, next = 5, writers_active = 1\<rparr> \<and>
   fst (try_writelock \<lparr>writers = 3, readers = 3, next = 5, writers_active = 1\<rparr>) = EBUSY \<and>
   snd (try_writelock \<lparr>writers = 3, readers = 3, next = 5, writers_active = 1\<rparr>)
     = \<lparr>writers = 3, readers = 3, next = 5, writers_active = 1\<rparr>"
  using try_busy_unchanged [of "\<lparr>writers = 3, readers = 3, next = 5, writers_active = 1\<rparr>"]
  by (simp add: try_readlock_busy try_writelock_busy)

section \<open>The unlock functions\<close>

text \<open>
  C8. For every lock word, \<open>readunlock\<close> adds exactly one to \<open>writers\<close> (modulo 2^16)
  and leaves \<open>readers\<close>, \<open>next\<close> and \<open>writers_active\<close> as they were.
\<close>

theorem readunlock_frame:
  "writers (readunlock l) = writers l + 1 \<and>
   readers (readunlock l) = readers l \<and>
   next (readunlock l) = next l \<and>
   writers_active (readunlock l) = writers_active l"
  by (simp add: readunlock_eq)

text \<open>
  C10. \<open>writeunlock\<close> never changes \<open>next\<close>: its last store writes the
  writers/readers half of the word only. For every lock word its whole effect is
  \<open>writers\<close> plus one, \<open>readers\<close> plus one, \<open>writers_active\<close> minus one (each modulo
  2^16) and \<open>next\<close> unchanged.
\<close>

theorem writeunlock_frame:
  "writers (writeunlock l) = writers l + 1 \<and>
   readers (writeunlock l) = readers l + 1 \<and>
   writers_active (writeunlock l) = writers_active l - 1 \<and>
   next (writeunlock l) = next l"
  by (simp add: writeunlock_eq)

section \<open>The worked example of the source\<close>

text \<open>
  C4 (as amended). From the all-zero word, three read acquisitions take tickets 0, 1
  and 2 and are granted at once, leaving \<open>readers = next = 3\<close>. A write request then
  takes ticket 3, which moves \<open>next\<close> to 4, and its wait loop does not return while
  \<open>writers\<close> is 0. The three read releases make \<open>writers\<close> 1, 2 and 3; the wait loop
  of the writer still does not return after the first and the second, and returns
  after the third, on the word \<open>writers = 3\<close>, \<open>readers = 3\<close>, \<open>next = 4\<close>.
\<close>

theorem worked_example:
  "readlock_ticket zero_lock
     = (0, \<lparr>writers = 0, readers = 0, next = 1, writers_active = 0\<rparr>) \<and>
   readlock zero_lock = Some \<lparr>writers = 0, readers = 1, next = 1, writers_active = 0\<rparr> \<and>
   readlock_ticket \<lparr>writers = 0, readers = 1, next = 1, writers_active = 0\<rparr>
     = (1, \<lparr>writers = 0, readers = 1, next = 2, writers_active = 0\<rparr>) \<and>
   readlock \<lparr>writers = 0, readers = 1, next = 1, writers_active = 0\<rparr>
     = Some \<lparr>writers = 0, readers = 2, next = 2, writers_active = 0\<rparr> \<and>
   readlock_ticket \<lparr>writers = 0, readers = 2, next = 2, writers_active = 0\<rparr>
     = (2, \<lparr>writers = 0, readers = 2, next = 3, writers_active = 0\<rparr>) \<and>
   readlock \<lparr>writers = 0, readers = 2, next = 2, writers_active = 0\<rparr>
     = Some \<lparr>writers = 0, readers = 3, next = 3, writers_active = 0\<rparr> \<and>
   writelock_ticket \<lparr>writers = 0, readers = 3, next = 3, writers_active = 0\<rparr>
     = (3, \<lparr>writers = 0, readers = 3, next = 4, writers_active = 1\<rparr>) \<and>
   writelock_wait \<lparr>writers = 0, readers = 3, next = 4, writers_active = 1\<rparr> 3 0 = None \<and>
   readunlock \<lparr>writers = 0, readers = 3, next = 4, writers_active = 1\<rparr>
     = \<lparr>writers = 1, readers = 3, next = 4, writers_active = 1\<rparr> \<and>
   writelock_wait \<lparr>writers = 1, readers = 3, next = 4, writers_active = 1\<rparr> 3 0 = None \<and>
   readunlock \<lparr>writers = 1, readers = 3, next = 4, writers_active = 1\<rparr>
     = \<lparr>writers = 2, readers = 3, next = 4, writers_active = 1\<rparr> \<and>
   writelock_wait \<lparr>writers = 2, readers = 3, next = 4, writers_active = 1\<rparr> 3 0 = None \<and>
   readunlock \<lparr>writers = 2, readers = 3, next = 4, writers_active = 1\<rparr>
     = \<lparr>writers = 3, readers = 3, next = 4, writers_active = 1\<rparr> \<and>
   writelock_wait \<lparr>writers = 3, readers = 3, next = 4, writers_active = 1\<rparr> 3 0 = Some 0"
  by (simp add: zero_lock_def readlock_free readlock_ticket_def writelock_ticket_def take_ticket_def
      writelock_active_def atomic_fetch_add16_def atomic_add16_def readunlock_eq
      writelock_wait_blocked writelock_wait_granted)

text \<open>
  C4 as stated fails: when the writer is granted the lock, \<open>writers\<close> is 3 but \<open>next\<close>
  is 4, because the writer's own ticket has been handed out.
\<close>

theorem worked_example_next_counterexample:
  "readlock zero_lock = Some \<lparr>writers = 0, readers = 1, next = 1, writers_active = 0\<rparr> \<and>
   readlock \<lparr>writers = 0, readers = 1, next = 1, writers_active = 0\<rparr>
     = Some \<lparr>writers = 0, readers = 2, next = 2, writers_active = 0\<rparr> \<and>
   readlock \<lparr>writers = 0, readers = 2, next = 2, writers_active = 0\<rparr>
     = Some \<lparr>writers = 0, readers = 3, next = 3, writers_active = 0\<rparr> \<and>
   fst (writelock_ticket \<lparr>writers = 0, readers = 3, next = 3, writers_active = 0\<rparr>) = 3 \<and>
   writelock_wait
     (readunlock (readunlock (readunlock
        (snd (writelock_ticket \<lparr>writers = 0, readers = 3, next = 3, writers_active = 0\<rparr>)))))
     3 0 = Some 0 \<and>
   \<not> (writers (readunlock (readunlock (readunlock
          (snd (writelock_ticket \<lparr>writers = 0, readers = 3, next = 3, writers_active = 0\<rparr>)))))
      = next (readunlock (readunlock (readunlock
          (snd (writelock_ticket \<lparr>writers = 0, readers = 3, next = 3, writers_active = 0\<rparr>))))))"
  by (simp add: zero_lock_def readlock_free writelock_ticket_def take_ticket_def
      writelock_active_def atomic_fetch_add16_def atomic_add16_def readunlock_eq writelock_wait_granted)

section \<open>Write lock round trips\<close>

lemma idle_try_writelock:
  "idle l \<Longrightarrow> try_writelock l = (Success, l\<lparr>next := next l + 1, writers_active := 1\<rparr>)"
  by (simp add: idle_def try_writelock_free)

lemma idle_writelock:
  "idle l \<Longrightarrow> writelock l = Some (l\<lparr>next := next l + 1, writers_active := 1\<rparr>)"
  by (simp add: idle_def writelock_free)

lemma idle_write_round:
  "idle l \<Longrightarrow> idle (writeunlock (l\<lparr>next := next l + 1, writers_active := 1\<rparr>))"
  by (simp add: idle_def writeunlock_eq)

lemma try_write_rounds_idle: "idle l \<Longrightarrow> \<exists>l'. try_write_rounds n l = Some l' \<and> idle l'"
  by (induction n arbitrary: l) (simp_all add: idle_try_writelock idle_write_round)

lemma write_rounds_idle: "idle l \<Longrightarrow> \<exists>l'. write_rounds n l = Some l' \<and> idle l'"
  by (induction n arbitrary: l) (simp_all add: idle_writelock idle_write_round)

text \<open>
  C5. On an idle lock word (\<open>writers = readers = next\<close> and \<open>writers_active = 0\<close>) a
  write acquisition succeeds at once: \<open>try_writelock\<close> does not return \<open>EBUSY\<close> and
  \<open>writelock\<close> returns. The write unlock that follows leaves an idle word again, so
  any number of rounds of write lock and write unlock goes through, every step
  succeeding at once.
\<close>

theorem write_roundtrip:
  "idle l \<Longrightarrow>
   fst (try_writelock l) = Success \<and>
   idle (writeunlock (snd (try_writelock l))) \<and>
   (\<exists>l'. writelock l = Some l' \<and> idle (writeunlock l')) \<and>
   (\<exists>l'. try_write_rounds n l = Some l' \<and> idle l') \<and>
   (\<exists>l'. write_rounds n l = Some l' \<and> idle l')"
  by (simp add: idle_try_writelock idle_writelock idle_write_round
      try_write_rounds_idle write_rounds_idle)

theorem write_roundtrip_witness:
  "idle \<lparr>writers = 65534, readers = 65534, next = 65534, writers_active = 0\<rparr> \<and>
   try_write_rounds 3 \<lparr>writers = 65534, readers = 65534, next = 65534, writers_active = 0\<rparr>
     = Some \<lparr>writers = 1, readers = 1, next = 1, writers_active = 0\<rparr> \<and>
   write_rounds 3 \<lparr>writers = 65534, readers = 65534, next = 65534, writers_active = 0\<rparr>
     = Some \<lparr>writers = 1, readers = 1, next = 1, writers_active = 0\<rparr> \<and>
   idle \<lparr>writers = 1, readers = 1, next = 1, writers_active = 0\<rparr>"
proof -
  have h: "idle \<lparr>writers = 65534, readers = 65534, next = 65534, writers_active = 0\<rparr>"
    by (simp add: idle_def)
  show ?thesis
    using h write_roundtrip [OF h, of 3]
    by (simp add: numeral_3_eq_3 try_writelock_free writelock_free writeunlock_eq idle_def)
qed

section \<open>Mutual exclusion\<close>

subsection \<open>Arithmetic on the counters\<close>

lemma unat_diff_zero: "(unat (a - b) = 0) = (a = (b::u16))"
  by (simp add: unat_eq_0)

lemma unat_minus1: "x \<noteq> 0 \<Longrightarrow> unat (x - 1 :: u16) = unat x - 1"
  by (simp add: unat_minus_one)

lemma unat_diff_pred:
  "a \<noteq> b \<Longrightarrow> unat (a - (b + 1)) = unat (a - (b::u16)) - 1"
  using unat_minus1 [of "a - b"] by (simp add: algebra_simps)

lemma unat_of_nat_small: "n < 65536 \<Longrightarrow> unat (of_nat n :: u16) = n"
  by (simp add: unat_of_nat)

lemma of_nat_small_zero: "n < 65536 \<Longrightarrow> (of_nat n :: u16) = 0 \<Longrightarrow> n = 0"
  using unat_of_nat_small [of n] by simp

lemma of_nat_pred: "0 < n \<Longrightarrow> (of_nat (n - 1) :: u16) = of_nat n - 1"
  by (cases n) simp_all

subsection \<open>Sets of callers\<close>

lemma queued_upd:
  "queued (f(i := p)) = (if in_queue p then insert i (queued f) else queued f - {i})"
  by (auto simp: queued_def)

lemma reading_upd:
  "reading (f(i := p)) = (if p = Reading then insert i (reading f) else reading f - {i})"
  by (auto simp: reading_def)

lemma holds_write_in_queue: "holds_write p \<Longrightarrow> in_queue p"
  by (cases p) simp_all

lemma only_threads_sub:
  assumes "only_threads K f"
  shows "queued f \<union> reading f \<subseteq> {..<K}"
proof
  fix t assume "t \<in> queued f \<union> reading f"
  then have "f t \<noteq> Idle" by (auto simp: queued_def reading_def)
  with assms show "t \<in> {..<K}" by (auto simp: only_threads_def not_le [symmetric])
qed

lemma only_threads_finite:
  assumes "only_threads K f"
  shows "finite (queued f)" and "finite (reading f)"
  using only_threads_sub [OF assms] finite_subset [of _ "{..<K}"] by auto

lemma queued_reading_disjoint: "queued f \<inter> reading f = {}"
  by (auto simp: queued_def reading_def)

lemma only_threads_card:
  assumes "only_threads K f"
  shows "card (queued f) + card (reading f) \<le> K"
proof -
  have "card (queued f) + card (reading f) = card (queued f \<union> reading f)"
    using only_threads_finite [OF assms] queued_reading_disjoint
    by (simp add: card_Un_disjoint)
  also have "\<dots> \<le> card {..<K}"
    using only_threads_sub [OF assms] by (intro card_mono) auto
  finally show ?thesis by simp
qed

lemma free_thread_card:
  assumes "only_threads K f" and "i < K" and "\<not> in_queue (f i)" and "f i \<noteq> Reading"
  shows "card (queued f) + card (reading f) < K"
proof -
  have "card (queued f) + card (reading f) = card (queued f \<union> reading f)"
    using only_threads_finite [OF assms(1)] queued_reading_disjoint
    by (simp add: card_Un_disjoint)
  also have "\<dots> \<le> card ({..<K} - {i})"
    using only_threads_sub [OF assms(1)] assms(3,4)
    by (intro card_mono) (auto simp: queued_def reading_def)
  also have "\<dots> < K" using assms(2) by simp
  finally show ?thesis .
qed

lemma only_threads_upd: "only_threads K f \<Longrightarrow> i < K \<Longrightarrow> only_threads K (f(i := p))"
  by (auto simp: only_threads_def)

lemma lock_inv_init: "lock_inv K init_config"
  by (simp add: lock_inv_def init_config_def only_threads_def queue_ok_def readers_ok_def
      copies_ok_def rwlock_init_def zero_lock_def queued_def reading_def)

subsection \<open>Steps that keep the bookkeeping\<close>

lemma ticket_of_cong: "readers l' = readers l \<Longrightarrow> ticket_of l' p = ticket_of l p"
  by (cases p) simp_all

lemma queued_same: "in_queue p = in_queue (f i) \<Longrightarrow> queued (f(i := p)) = queued f"
  by (auto simp: queued_def)

lemma reading_same: "(p = Reading) = (f i = Reading) \<Longrightarrow> reading (f(i := p)) = reading f"
  by (auto simp: reading_def)

lemma quiet_step:
  assumes inv: "lock_inv K s" and i: "i < K"
    and q: "in_queue p' = in_queue (pcs s i)"
    and r: "(p' = Reading) = (pcs s i = Reading)"
    and tk: "in_queue p' \<Longrightarrow> ticket_of (lk s) p' = ticket_of (lk s) (pcs s i)"
    and l': "readers l' = readers (lk s)" "writers l' = writers (lk s)" "next l' = next (lk s)"
    and hw: "holds_write p' \<Longrightarrow> holds_write (pcs s i) \<or> reading (pcs s) = {}"
    and rs: "\<And>v. p' = Read_store v \<Longrightarrow> v = readers (lk s)"
    and us: "\<And>new. p' = Unlock_store new \<Longrightarrow>
               writers new = writers (lk s) \<and> readers new = readers (lk s)"
  shows "lock_inv K \<lparr>lk = l', pcs = (pcs s)(i := p')\<rparr>"
proof -
  let ?f = "pcs s" and ?l = "lk s"
  let ?f' = "(pcs s)(i := p')"
  have Q: "queued ?f' = queued ?f" using q by (rule queued_same)
  have R: "reading ?f' = reading ?f" using r by (rule reading_same)
  have T: "\<And>p. ticket_of l' p = ticket_of ?l p" using l'(1) by (rule ticket_of_cong)
  have T': "\<And>t. in_queue (?f' t) \<Longrightarrow> ticket_of ?l (?f' t) = ticket_of ?l (?f t)"
    using tk by (auto split: if_splits)
  have Q': "\<And>t. in_queue (?f' t) = in_queue (?f t)" using q by simp
  from inv have ot: "only_threads K ?f" and qo: "queue_ok ?l ?f"
    and ro: "readers_ok ?l ?f" and co: "copies_ok ?l ?f"
    by (simp_all add: lock_inv_def)
  have "only_threads K ?f'" using ot i by (rule only_threads_upd)
  moreover have "queue_ok l' ?f'"
    unfolding queue_ok_def Q T l'
  proof (intro conjI allI impI)
    show "next ?l - readers ?l = of_nat (card (queued ?f))"
      using qo by (simp add: queue_ok_def)
  next
    fix t assume "in_queue (?f' t)"
    then have "in_queue (?f t)" and "ticket_of ?l (?f' t) = ticket_of ?l (?f t)"
      using Q' T' by simp_all
    then show "unat (ticket_of ?l (?f' t) - readers ?l) < card (queued ?f)"
      using qo by (simp add: queue_ok_def)
  next
    fix t t' assume "in_queue (?f' t)" and "in_queue (?f' t')"
      and e: "ticket_of ?l (?f' t) = ticket_of ?l (?f' t')"
    then have a: "in_queue (?f t)" "in_queue (?f t')"
      and "ticket_of ?l (?f' t) = ticket_of ?l (?f t)"
      and "ticket_of ?l (?f' t') = ticket_of ?l (?f t')"
      using Q' T' by simp_all
    with e have "ticket_of ?l (?f t) = ticket_of ?l (?f t')" by simp
    with a qo show "t = t'" unfolding queue_ok_def by blast
  qed
  moreover have "readers_ok l' ?f'"
    unfolding readers_ok_def R l'
  proof (intro conjI allI impI)
    show "readers ?l - writers ?l = of_nat (card (reading ?f))"
      using ro by (simp add: readers_ok_def)
  next
    fix t assume h: "holds_write (?f' t)"
    show "reading ?f = {}"
    proof (cases "t = i")
      case True
      with h hw have "holds_write (?f i) \<or> reading ?f = {}" by simp
      with ro show ?thesis unfolding readers_ok_def by blast
    next
      case False
      with h have "holds_write (?f t)" by simp
      with ro show ?thesis unfolding readers_ok_def by blast
    qed
  qed
  moreover have "copies_ok l' ?f'"
    unfolding copies_ok_def l'
  proof (intro conjI allI impI)
    fix t v assume h: "?f' t = Read_store v"
    show "v = readers ?l"
    proof (cases "t = i")
      case True
      with h rs show ?thesis by simp
    next
      case False
      with h co show ?thesis unfolding copies_ok_def by simp
    qed
  next
    fix t new assume h: "?f' t = Unlock_store new"
    have "writers new = writers ?l \<and> readers new = readers ?l"
    proof (cases "t = i")
      case True
      with h us show ?thesis by simp
    next
      case False
      with h co show ?thesis unfolding copies_ok_def by simp
    qed
    then show "writers new = writers ?l" and "readers new = readers ?l" by simp_all
  qed
  ultimately show ?thesis by (simp add: lock_inv_def)
qed

lemma ticket_of_waiting:
  "ticket_of l p \<noteq> readers l \<Longrightarrow> ticket_of l' p = ticket_of l p"
  by (cases p) simp_all

lemma holds_write_ticket: "holds_write p \<Longrightarrow> ticket_of l p = readers l"
  by (cases p) simp_all

lemma head_unique:
  assumes "queue_ok l f" and "in_queue (f i)" and "ticket_of l (f i) = readers l"
    and "in_queue (f t)" and "ticket_of l (f t) = readers l"
  shows "t = i"
  using assms unfolding queue_ok_def by metis

lemma enqueue_step:
  assumes inv: "lock_inv K s" and K: "K \<le> 65536" and i: "i < K"
    and p: "\<not> in_queue (pcs s i)" "pcs s i \<noteq> Reading"
    and p': "p' = Read_wait (next (lk s)) \<or> p' = Write_active (next (lk s))"
    and l': "l' = (lk s)\<lparr>next := next (lk s) + 1\<rparr>"
  shows "lock_inv K \<lparr>lk = l', pcs = (pcs s)(i := p')\<rparr>"
proof -
  let ?f = "pcs s" and ?l = "lk s"
  let ?f' = "(pcs s)(i := p')"
  from inv have ot: "only_threads K ?f" and qo: "queue_ok ?l ?f"
    and ro: "readers_ok ?l ?f" and co: "copies_ok ?l ?f"
    by (simp_all add: lock_inv_def)
  have q': "in_queue p'" and nr: "p' \<noteq> Reading" and nh: "\<not> holds_write p'"
    and tp: "ticket_of l' p' = next ?l"
    using p' by auto
  have ot': "only_threads K ?f'" using ot i by (rule only_threads_upd)
  have fin: "finite (queued ?f)" using ot by (rule only_threads_finite)
  have iQ: "i \<notin> queued ?f" using p by (simp add: queued_def)
  have Q: "queued ?f' = insert i (queued ?f)" using q' by (simp add: queued_upd)
  have cQ: "card (queued ?f') = card (queued ?f) + 1" using fin iQ by (simp add: Q)
  have R: "reading ?f' = reading ?f" using nr p(2) by (simp add: reading_same)
  have "card (queued ?f) + card (reading ?f) < K"
    using ot i p by (rule free_thread_card)
  then have small: "card (queued ?f) < 65536" using K by simp
  have nw: "next ?l - readers ?l = of_nat (card (queued ?f))"
    using qo by (simp add: queue_ok_def)
  have n: "unat (next ?l - readers ?l) = card (queued ?f)"
    unfolding nw using small by (rule unat_of_nat_small)
  have rd: "readers l' = readers ?l" and wr: "writers l' = writers ?l"
    and nx: "next l' = next ?l + 1"
    by (simp_all add: l')
  have T: "\<And>p. ticket_of l' p = ticket_of ?l p" using rd by (rule ticket_of_cong)
  have old_range: "\<And>t. in_queue (?f t) \<Longrightarrow>
      unat (ticket_of ?l (?f t) - readers ?l) < card (queued ?f)"
    using qo by (simp add: queue_ok_def)
  have "queue_ok l' ?f'"
    unfolding queue_ok_def cQ rd nx
  proof (intro conjI allI impI)
    have "next ?l + 1 - readers ?l = (next ?l - readers ?l) + 1" by simp
    then show "next ?l + 1 - readers ?l = of_nat (card (queued ?f) + 1)"
      unfolding nw by simp
  next
    fix t assume a: "in_queue (?f' t)"
    show "unat (ticket_of l' (?f' t) - readers ?l) < card (queued ?f) + 1"
    proof (cases "t = i")
      case True
      then show ?thesis using tp n by simp
    next
      case False
      with a have "in_queue (?f t)" by simp
      from old_range [OF this] False show ?thesis by (simp add: T)
    qed
  next
    fix t t' assume a: "in_queue (?f' t)" and b: "in_queue (?f' t')"
      and e: "ticket_of l' (?f' t) = ticket_of l' (?f' t')"
    have new_old: False if "u \<noteq> i" and "in_queue (?f u)"
      and "ticket_of ?l (?f u) = next ?l" for u
      using old_range [OF that(2)] that(3) n by simp
    show "t = t'"
    proof (cases "t = i")
      case True
      show ?thesis
      proof (cases "t' = i")
        case True
        with \<open>t = i\<close> show ?thesis by simp
      next
        case False
        with b have "in_queue (?f t')" by simp
        moreover have "ticket_of ?l (?f t') = next ?l"
          using e True False tp by (simp add: T)
        ultimately show ?thesis using new_old False by blast
      qed
    next
      case False
      with a have at: "in_queue (?f t)" by simp
      show ?thesis
      proof (cases "t' = i")
        case True
        have "ticket_of ?l (?f t) = next ?l"
          using e True False tp by (simp add: T)
        with at show ?thesis using new_old False by blast
      next
        case F2: False
        with b have bt: "in_queue (?f t')" by simp
        have "ticket_of ?l (?f t) = ticket_of ?l (?f t')"
          using e False F2 by (simp add: T)
        with at bt qo show ?thesis unfolding queue_ok_def by blast
      qed
    qed
  qed
  moreover have "readers_ok l' ?f'"
    unfolding readers_ok_def R rd wr
  proof (intro conjI allI impI)
    show "readers ?l - writers ?l = of_nat (card (reading ?f))"
      using ro by (simp add: readers_ok_def)
  next
    fix t assume h: "holds_write (?f' t)"
    then have "t \<noteq> i" using nh by auto
    with h have "holds_write (?f t)" by simp
    with ro show "reading ?f = {}" unfolding readers_ok_def by blast
  qed
  moreover have "copies_ok l' ?f'"
    unfolding copies_ok_def rd wr
  proof (intro conjI allI impI)
    fix t v assume h: "?f' t = Read_store v"
    then have "t \<noteq> i" using p' by auto
    with h co show "v = readers ?l" unfolding copies_ok_def by simp
  next
    fix t new assume h: "?f' t = Unlock_store new"
    then have "t \<noteq> i" using p' by auto
    with h co have "writers new = writers ?l \<and> readers new = readers ?l"
      unfolding copies_ok_def by simp
    then show "writers new = writers ?l" and "readers new = readers ?l" by simp_all
  qed
  ultimately show ?thesis using ot' by (simp add: lock_inv_def)
qed

lemma dequeue_queue_ok:
  assumes qo: "queue_ok l f" and fin: "finite (queued f)"
    and hd: "in_queue (f i)" "ticket_of l (f i) = readers l"
    and p': "\<not> in_queue p'"
    and rd: "readers l' = readers l + 1" and nx: "next l' = next l"
  shows "queue_ok l' (f(i := p'))"
proof -
  let ?f' = "f(i := p')"
  have iQ: "i \<in> queued f" using hd by (simp add: queued_def)
  have Q: "queued ?f' = queued f - {i}" using p' by (simp add: queued_upd)
  have pos: "0 < card (queued f)" using iQ fin by (auto simp: card_gt_0_iff)
  have cQ: "card (queued ?f') = card (queued f) - 1" using iQ fin by (simp add: Q)
  have n: "next l - readers l = of_nat (card (queued f))"
    using qo by (simp add: queue_ok_def)
  have other: "ticket_of l (f t) \<noteq> readers l" if "t \<noteq> i" and "in_queue (f t)" for t
    using head_unique [OF qo hd that(2)] that(1) by blast
  show ?thesis
    unfolding queue_ok_def cQ rd nx
  proof (intro conjI allI impI)
    have "next l - (readers l + 1) = (next l - readers l) - 1" by simp
    then show "next l - (readers l + 1) = of_nat (card (queued f) - 1)"
      unfolding n using of_nat_pred [OF pos] by simp
  next
    fix t assume a: "in_queue (?f' t)"
    then have ti: "t \<noteq> i" using p' by auto
    with a have at: "in_queue (f t)" by simp
    have ne: "ticket_of l (f t) \<noteq> readers l" using other ti at by simp
    then have same: "ticket_of l' (f t) = ticket_of l (f t)" by (rule ticket_of_waiting)
    have "unat (ticket_of l (f t) - readers l) < card (queued f)"
      using qo at by (simp add: queue_ok_def)
    moreover have "unat (ticket_of l (f t) - readers l) \<noteq> 0"
      using ne by (simp add: unat_diff_zero)
    ultimately have "unat (ticket_of l (f t) - readers l) - 1 < card (queued f) - 1"
      by simp
    then show "unat (ticket_of l' (?f' t) - (readers l + 1)) < card (queued f) - 1"
      using unat_diff_pred [OF ne] ti by (simp add: same)
  next
    fix t t' assume a: "in_queue (?f' t)" and b: "in_queue (?f' t')"
      and e: "ticket_of l' (?f' t) = ticket_of l' (?f' t')"
    have ti: "t \<noteq> i" and t'i: "t' \<noteq> i" using a b p' by auto
    with a b have at: "in_queue (f t)" and bt: "in_queue (f t')" by simp_all
    have "ticket_of l' (f t) = ticket_of l (f t)"
      using other [OF ti at] by (rule ticket_of_waiting)
    moreover have "ticket_of l' (f t') = ticket_of l (f t')"
      using other [OF t'i bt] by (rule ticket_of_waiting)
    ultimately have "ticket_of l (f t) = ticket_of l (f t')" using e ti t'i by simp
    with at bt qo show "t = t'" unfolding queue_ok_def by blast
  qed
qed

lemma head_alone:
  assumes qo: "queue_ok l f" and hd: "in_queue (f i)" "ticket_of l (f i) = readers l"
  shows "t \<noteq> i \<Longrightarrow> \<not> holds_write (f t)"
    and "t \<noteq> i \<Longrightarrow> f t \<noteq> Read_store v"
    and "t \<noteq> i \<Longrightarrow> f t \<noteq> Unlock_store new"
proof -
  have a: "t = i" if "in_queue (f t)" and "ticket_of l (f t) = readers l" for t
    using head_unique [OF qo hd that] .
  show "t \<noteq> i \<Longrightarrow> \<not> holds_write (f t)"
    using a [of t] holds_write_in_queue [of "f t"] holds_write_ticket [of "f t" l] by blast
  show "t \<noteq> i \<Longrightarrow> f t \<noteq> Read_store v"
    using a [of t] by auto
  show "t \<noteq> i \<Longrightarrow> f t \<noteq> Unlock_store new"
    using a [of t] by auto
qed

lemma read_enter_step:
  assumes inv: "lock_inv K s" and i: "i < K"
    and p: "pcs s i = Read_store v"
  shows "lock_inv K \<lparr>lk = (lk s)\<lparr>readers := v + 1\<rparr>, pcs = (pcs s)(i := Reading)\<rparr>"
proof -
  let ?f = "pcs s" and ?l = "lk s"
  let ?f' = "(pcs s)(i := Reading)" and ?l' = "(lk s)\<lparr>readers := v + 1\<rparr>"
  from inv have ot: "only_threads K ?f" and qo: "queue_ok ?l ?f"
    and ro: "readers_ok ?l ?f" and co: "copies_ok ?l ?f"
    by (simp_all add: lock_inv_def)
  have v: "v = readers ?l" using co p unfolding copies_ok_def by blast
  have hd: "in_queue (?f i)" "ticket_of ?l (?f i) = readers ?l" using p by simp_all
  have ot': "only_threads K ?f'" using ot i by (rule only_threads_upd)
  have fin: "finite (queued ?f)" "finite (reading ?f)" using ot by (rule only_threads_finite)+
  have iR: "i \<notin> reading ?f" using p by (simp add: reading_def)
  have R: "reading ?f' = insert i (reading ?f)" by (simp add: reading_upd)
  have cR: "card (reading ?f') = card (reading ?f) + 1" using fin iR by (simp add: R)
  have "queue_ok ?l' ?f'"
    using qo fin(1) hd by (rule dequeue_queue_ok) (simp_all add: v)
  moreover have "readers_ok ?l' ?f'"
    unfolding readers_ok_def cR
  proof (intro conjI allI impI)
    have "readers ?l - writers ?l = of_nat (card (reading ?f))"
      using ro by (simp add: readers_ok_def)
    moreover have "readers ?l' - writers ?l' = (readers ?l - writers ?l) + 1"
      by (simp add: v)
    ultimately show "readers ?l' - writers ?l' = of_nat (card (reading ?f) + 1)"
      by simp
  next
    fix t assume h: "holds_write (?f' t)"
    then have "t \<noteq> i" by auto
    with h head_alone(1) [OF qo hd] show "reading ?f' = {}" by simp
  qed
  moreover have "copies_ok ?l' ?f'"
    unfolding copies_ok_def
  proof (intro conjI allI impI)
    fix t w assume h: "?f' t = Read_store w"
    then have "t \<noteq> i" by auto
    with h head_alone(2) [OF qo hd] show "w = readers ?l'" by simp
  next
    fix t new assume h: "?f' t = Unlock_store new"
    then have "t \<noteq> i" by auto
    with h head_alone(3) [OF qo hd] have False by simp
    then show "writers new = writers ?l'" and "readers new = readers ?l'" by simp_all
  qed
  ultimately show ?thesis using ot' by (simp add: lock_inv_def)
qed

lemma write_release_step:
  assumes inv: "lock_inv K s" and i: "i < K"
    and p: "pcs s i = Unlock_store new"
  shows "lock_inv K \<lparr>lk = writeunlock_store new (lk s), pcs = (pcs s)(i := Idle)\<rparr>"
proof -
  let ?f = "pcs s" and ?l = "lk s"
  let ?f' = "(pcs s)(i := Idle)" and ?l' = "writeunlock_store new (lk s)"
  from inv have ot: "only_threads K ?f" and qo: "queue_ok ?l ?f"
    and ro: "readers_ok ?l ?f" and co: "copies_ok ?l ?f"
    by (simp_all add: lock_inv_def)
  have new: "writers new = writers ?l" "readers new = readers ?l"
    using co p unfolding copies_ok_def by blast+
  have l': "readers ?l' = readers ?l + 1" "writers ?l' = writers ?l + 1" "next ?l' = next ?l"
    by (simp_all add: writeunlock_store_def store_wr_def new)
  have hd: "in_queue (?f i)" "ticket_of ?l (?f i) = readers ?l" using p by simp_all
  have ot': "only_threads K ?f'" using ot i by (rule only_threads_upd)
  have fin: "finite (queued ?f)" using ot by (rule only_threads_finite)
  have R: "reading ?f' = reading ?f" using p by (simp add: reading_same)
  have "queue_ok ?l' ?f'"
    using qo fin hd by (rule dequeue_queue_ok) (simp_all add: l')
  moreover have "readers_ok ?l' ?f'"
    unfolding readers_ok_def R l'
  proof (intro conjI allI impI)
    show "readers ?l + 1 - (writers ?l + 1) = of_nat (card (reading ?f))"
      using ro by (simp add: readers_ok_def)
  next
    fix t assume h: "holds_write (?f' t)"
    then have "t \<noteq> i" by auto
    with h head_alone(1) [OF qo hd] show "reading ?f = {}" by simp
  qed
  moreover have "copies_ok ?l' ?f'"
    unfolding copies_ok_def
  proof (intro conjI allI impI)
    fix t w assume h: "?f' t = Read_store w"
    then have "t \<noteq> i" by auto
    with h head_alone(2) [OF qo hd] show "w = readers ?l'" by simp
  next
    fix t new' assume h: "?f' t = Unlock_store new'"
    then have "t \<noteq> i" by auto
    with h head_alone(3) [OF qo hd] have False by simp
    then show "writers new' = writers ?l'" and "readers new' = readers ?l'" by simp_all
  qed
  ultimately show ?thesis using ot' by (simp add: lock_inv_def)
qed

lemma read_release_step:
  assumes inv: "lock_inv K s" and i: "i < K"
    and p: "pcs s i = Reading"
  shows "lock_inv K \<lparr>lk = readunlock (lk s), pcs = (pcs s)(i := Idle)\<rparr>"
proof -
  let ?f = "pcs s" and ?l = "lk s"
  let ?f' = "(pcs s)(i := Idle)" and ?l' = "readunlock (lk s)"
  from inv have ot: "only_threads K ?f" and qo: "queue_ok ?l ?f"
    and ro: "readers_ok ?l ?f" and co: "copies_ok ?l ?f"
    by (simp_all add: lock_inv_def)
  have l': "readers ?l' = readers ?l" "writers ?l' = writers ?l + 1" "next ?l' = next ?l"
    by (simp_all add: readunlock_eq)
  have ot': "only_threads K ?f'" using ot i by (rule only_threads_upd)
  have fin: "finite (reading ?f)" using ot by (rule only_threads_finite)
  have iR: "i \<in> reading ?f" using p by (simp add: reading_def)
  have R: "reading ?f' = reading ?f - {i}" by (simp add: reading_upd)
  have pos: "0 < card (reading ?f)" using iR fin by (auto simp: card_gt_0_iff)
  have cR: "card (reading ?f') = card (reading ?f) - 1" using iR fin by (simp add: R)
  have Q: "queued ?f' = queued ?f" using p by (simp add: queued_same)
  have T: "\<And>p. ticket_of ?l' p = ticket_of ?l p" using l'(1) by (rule ticket_of_cong)
  have nw: "\<not> holds_write (?f t)" for t
    using ro iR unfolding readers_ok_def by blast
  have same: "in_queue (?f' t) \<Longrightarrow> ?f' t = ?f t" for t by (cases "t = i") simp_all
  have "queue_ok ?l' ?f'"
    unfolding queue_ok_def Q T l'
  proof (intro conjI allI impI)
    show "next ?l - readers ?l = of_nat (card (queued ?f))"
      using qo by (simp add: queue_ok_def)
  next
    fix t assume a: "in_queue (?f' t)"
    with same [OF a] have "in_queue (?f t)" by simp
    then show "unat (ticket_of ?l (?f' t) - readers ?l) < card (queued ?f)"
      using qo same [OF a] by (simp add: queue_ok_def)
  next
    fix t t' assume a: "in_queue (?f' t)" and b: "in_queue (?f' t')"
      and e: "ticket_of ?l (?f' t) = ticket_of ?l (?f' t')"
    have "in_queue (?f t)" and "in_queue (?f t')"
      and "ticket_of ?l (?f t) = ticket_of ?l (?f t')"
      using a b e same [OF a] same [OF b] by simp_all
    with qo show "t = t'" unfolding queue_ok_def by blast
  qed
  moreover have "readers_ok ?l' ?f'"
    unfolding readers_ok_def cR l'
  proof (intro conjI allI impI)
    have n: "readers ?l - writers ?l = of_nat (card (reading ?f))"
      using ro by (simp add: readers_ok_def)
    have "readers ?l - (writers ?l + 1) = (readers ?l - writers ?l) - 1" by simp
    then show "readers ?l - (writers ?l + 1) = of_nat (card (reading ?f) - 1)"
      unfolding n using of_nat_pred [OF pos] by simp
  next
    fix t assume h: "holds_write (?f' t)"
    then have "holds_write (?f t)" by (cases "t = i") simp_all
    with nw show "reading ?f' = {}" by simp
  qed
  moreover have "copies_ok ?l' ?f'"
    unfolding copies_ok_def l'
  proof (intro conjI allI impI)
    fix t v assume h: "?f' t = Read_store v"
    then have "?f t = Read_store v" by (cases "t = i") simp_all
    with co show "v = readers ?l" unfolding copies_ok_def by blast
  next
    fix t new assume h: "?f' t = Unlock_store new"
    then have "?f t = Unlock_store new" by (cases "t = i") simp_all
    with nw [of t] have False by simp
    then show "writers new = writers ?l + 1" and "readers new = readers ?l" by simp_all
  qed
  ultimately show ?thesis using ot' by (simp add: lock_inv_def)
qed

lemma queue_empty:
  assumes ot: "only_threads K f" and K: "K \<le> 65536" and i: "i < K"
    and p: "\<not> in_queue (f i)" "f i \<noteq> Reading"
    and qo: "queue_ok l f" and e: "readers l = next l"
  shows "\<not> in_queue (f t)"
proof -
  have "card (queued f) + card (reading f) < K" using ot i p by (rule free_thread_card)
  then have "card (queued f) < 65536" using K by simp
  moreover have "(of_nat (card (queued f)) :: u16) = 0"
    using qo e by (simp add: queue_ok_def)
  ultimately have "card (queued f) = 0" by (rule of_nat_small_zero)
  then have "queued f = {}" using only_threads_finite(1) [OF ot] by simp
  then show ?thesis by (auto simp: queued_def)
qed

lemma try_read_step:
  assumes inv: "lock_inv K s" and K: "K \<le> 65536" and i: "i < K"
    and p: "\<not> in_queue (pcs s i)" "pcs s i \<noteq> Reading"
    and e: "readers (lk s) = next (lk s)"
  shows "lock_inv K
     \<lparr>lk = (lk s)\<lparr>next := next (lk s) + 1, readers := next (lk s) + 1\<rparr>,
      pcs = (pcs s)(i := Reading)\<rparr>"
proof -
  let ?f = "pcs s" and ?l = "lk s"
  let ?f' = "(pcs s)(i := Reading)"
  let ?l' = "(lk s)\<lparr>next := next (lk s) + 1, readers := next (lk s) + 1\<rparr>"
  from inv have ot: "only_threads K ?f" and qo: "queue_ok ?l ?f"
    and ro: "readers_ok ?l ?f" and co: "copies_ok ?l ?f"
    by (simp_all add: lock_inv_def)
  have nq: "\<not> in_queue (?f t)" for t using ot K i p qo e by (rule queue_empty)
  have nq': "\<not> in_queue (?f' t)" for t using nq [of t] by simp
  have ot': "only_threads K ?f'" using ot i by (rule only_threads_upd)
  have fin: "finite (reading ?f)" using ot by (rule only_threads_finite)
  have iR: "i \<notin> reading ?f" using p by (simp add: reading_def)
  have R: "reading ?f' = insert i (reading ?f)" by (simp add: reading_upd)
  have cR: "card (reading ?f') = card (reading ?f) + 1" using fin iR by (simp add: R)
  have Q': "queued ?f' = {}" using nq' by (auto simp: queued_def)
  have "queue_ok ?l' ?f'"
    unfolding queue_ok_def Q' using nq' by simp
  moreover have "readers_ok ?l' ?f'"
    unfolding readers_ok_def cR
  proof (intro conjI allI impI)
    have "readers ?l - writers ?l = of_nat (card (reading ?f))"
      using ro by (simp add: readers_ok_def)
    moreover have "readers ?l' - writers ?l' = (readers ?l - writers ?l) + 1"
      using e by simp
    ultimately show "readers ?l' - writers ?l' = of_nat (card (reading ?f) + 1)"
      by simp
  next
    fix t assume "holds_write (?f' t)"
    then have "in_queue (?f' t)" by (rule holds_write_in_queue)
    with nq' show "reading ?f' = {}" by simp
  qed
  moreover have "copies_ok ?l' ?f'"
    unfolding copies_ok_def
  proof (intro conjI allI impI)
    fix t v assume "?f' t = Read_store v"
    then have "in_queue (?f' t)" by simp
    with nq' show "v = readers ?l'" by simp
  next
    fix t new assume "?f' t = Unlock_store new"
    then have "in_queue (?f' t)" by simp
    with nq' have False by simp
    then show "writers new = writers ?l'" and "readers new = readers ?l'" by simp_all
  qed
  ultimately show ?thesis using ot' by (simp add: lock_inv_def)
qed

lemma writers_caught_up:
  assumes ot: "only_threads K f" and K: "K \<le> 65536"
    and qo: "queue_ok l f" and ro: "readers_ok l f"
    and iq: "in_queue (f i)" and e: "ticket_of l (f i) = writers l"
  shows "ticket_of l (f i) = readers l" and "reading f = {}"
proof -
  let ?t = "ticket_of l (f i)"
  let ?k = "unat (?t - readers l)"
  have a: "?k < card (queued f)" using qo iq by (simp add: queue_ok_def)
  have b: "readers l - writers l = of_nat (card (reading f))"
    using ro by (simp add: readers_ok_def)
  have "card (queued f) + card (reading f) \<le> K" using ot by (rule only_threads_card)
  with a K have small: "?k + card (reading f) < 65536" by simp
  have "?t - writers l = (?t - readers l) + (readers l - writers l)" by simp
  also have "\<dots> = of_nat ?k + of_nat (card (reading f))" unfolding b by simp
  finally have "(of_nat (?k + card (reading f)) :: u16) = 0" using e by simp
  with small have "?k + card (reading f) = 0" by (rule of_nat_small_zero)
  then have z: "?k = 0" "card (reading f) = 0" by simp_all
  show "?t = readers l" using z(1) by (simp add: unat_diff_zero)
  show "reading f = {}" using z(2) only_threads_finite(2) [OF ot] by simp
qed

lemma all_caught_up:
  assumes ot: "only_threads K f" and K: "K \<le> 65536" and i: "i < K"
    and p: "\<not> in_queue (f i)" "f i \<noteq> Reading"
    and qo: "queue_ok l f" and ro: "readers_ok l f"
    and e: "writers l = next l"
  shows "queued f = {}" and "reading f = {}" and "readers l = next l"
proof -
  have a: "next l - readers l = of_nat (card (queued f))" using qo by (simp add: queue_ok_def)
  have b: "readers l - writers l = of_nat (card (reading f))"
    using ro by (simp add: readers_ok_def)
  have "card (queued f) + card (reading f) < K" using ot i p by (rule free_thread_card)
  with K have small: "card (queued f) + card (reading f) < 65536" by simp
  have "next l - writers l = (next l - readers l) + (readers l - writers l)" by simp
  also have "\<dots> = of_nat (card (queued f)) + of_nat (card (reading f))"
    unfolding a b by simp
  finally have "(of_nat (card (queued f) + card (reading f)) :: u16) = 0" using e by simp
  with small have "card (queued f) + card (reading f) = 0" by (rule of_nat_small_zero)
  then have z: "card (queued f) = 0" "card (reading f) = 0" by simp_all
  show "queued f = {}" using z(1) only_threads_finite(1) [OF ot] by simp
  show "reading f = {}" using z(2) only_threads_finite(2) [OF ot] by simp
  show "readers l = next l" using a z(1) by simp
qed

lemma try_write_step:
  assumes inv: "lock_inv K s" and K: "K \<le> 65536" and i: "i < K"
    and p: "\<not> in_queue (pcs s i)" "pcs s i \<noteq> Reading"
    and e: "writers (lk s) = next (lk s)"
  shows "lock_inv K
     \<lparr>lk = (lk s)\<lparr>next := next (lk s) + 1, writers_active := writers_active (lk s) + 1\<rparr>,
      pcs = (pcs s)(i := Writing)\<rparr>"
proof -
  let ?f = "pcs s" and ?l = "lk s"
  let ?f' = "(pcs s)(i := Writing)"
  let ?l' = "(lk s)\<lparr>next := next (lk s) + 1, writers_active := writers_active (lk s) + 1\<rparr>"
  from inv have ot: "only_threads K ?f" and qo: "queue_ok ?l ?f"
    and ro: "readers_ok ?l ?f" and co: "copies_ok ?l ?f"
    by (simp_all add: lock_inv_def)
  have Q: "queued ?f = {}" and R: "reading ?f = {}" and rn: "readers ?l = next ?l"
    using all_caught_up [OF ot K i p qo ro e] by simp_all
  have ot': "only_threads K ?f'" using ot i by (rule only_threads_upd)
  have Q': "queued ?f' = {i}" using Q by (simp add: queued_upd)
  have R': "reading ?f' = {}" using R by (simp add: reading_upd)
  have only: "t = i" if "in_queue (?f' t)" for t
    using that Q' by (auto simp: queued_def)
  have "queue_ok ?l' ?f'"
    unfolding queue_ok_def Q'
  proof (intro conjI allI impI)
    show "next ?l' - readers ?l' = of_nat (card {i})" by (simp add: rn)
  next
    fix t assume "in_queue (?f' t)"
    then have "t = i" by (rule only)
    then show "unat (ticket_of ?l' (?f' t) - readers ?l') < card {i}" by simp
  next
    fix t t' assume a: "in_queue (?f' t)" and b: "in_queue (?f' t')"
    have "t = i" using a by (rule only)
    moreover have "t' = i" using b by (rule only)
    ultimately show "t = t'" by simp
  qed
  moreover have "readers_ok ?l' ?f'"
    unfolding readers_ok_def R' using ro R by (simp add: readers_ok_def)
  moreover have "copies_ok ?l' ?f'"
    unfolding copies_ok_def
  proof (intro conjI allI impI)
    fix t v assume h: "?f' t = Read_store v"
    then have "in_queue (?f' t)" by simp
    then have "t = i" by (rule only)
    with h show "v = readers ?l'" by simp
  next
    fix t new assume h: "?f' t = Unlock_store new"
    then have "in_queue (?f' t)" by simp
    then have "t = i" by (rule only)
    with h have False by simp
    then show "writers new = writers ?l'" and "readers new = readers ?l'" by simp_all
  qed
  ultimately show ?thesis using ot' by (simp add: lock_inv_def)
qed

subsection \<open>Every step of every caller\<close>

lemma take_ticket_eq: "take_ticket l = (next l, l\<lparr>next := next l + 1\<rparr>)"
  by (simp add: take_ticket_def atomic_fetch_add16_def)

lemma try_readlock_swap_cases:
  "try_readlock_swap old l =
     (if readers old = next old \<and> l = old
      then (Success, l\<lparr>next := next l + 1, readers := next l + 1\<rparr>)
      else (EBUSY, l))"
  by (simp add: try_readlock_swap_def atomic_cas64_def Let_def)

lemma try_writelock_swap_cases:
  "try_writelock_swap old l =
     (if writers old = next old \<and> l = old
      then (Success, l\<lparr>next := next l + 1, writers_active := writers_active l + 1\<rparr>)
      else (EBUSY, l))"
  by (simp add: try_writelock_swap_def atomic_cas64_def Let_def)

lemma step_Idle:
  assumes inv: "lock_inv K s" and K: "K \<le> 65536" and i: "i < K" and p: "pcs s i = Idle"
  shows "lock_inv K (step (i, c) s)"
proof (cases c)
  case Try_readlock
  then have "step (i, c) s = \<lparr>lk = lk s, pcs = (pcs s)(i := Try_read False (lk s))\<rparr>"
    using p by (simp add: step_def)
  moreover have "lock_inv K \<lparr>lk = lk s, pcs = (pcs s)(i := Try_read False (lk s))\<rparr>"
    by (rule quiet_step [OF inv i]) (simp_all add: p)
  ultimately show ?thesis by simp
next
  case Readlock_spin
  then have "step (i, c) s = \<lparr>lk = lk s, pcs = (pcs s)(i := Try_read True (lk s))\<rparr>"
    using p by (simp add: step_def)
  moreover have "lock_inv K \<lparr>lk = lk s, pcs = (pcs s)(i := Try_read True (lk s))\<rparr>"
    by (rule quiet_step [OF inv i]) (simp_all add: p)
  ultimately show ?thesis by simp
next
  case Readlock
  then have "step (i, c) s =
      \<lparr>lk = (lk s)\<lparr>next := next (lk s) + 1\<rparr>, pcs = (pcs s)(i := Read_wait (next (lk s)))\<rparr>"
    using p by (simp add: step_def take_ticket_eq)
  moreover have "lock_inv K
      \<lparr>lk = (lk s)\<lparr>next := next (lk s) + 1\<rparr>, pcs = (pcs s)(i := Read_wait (next (lk s)))\<rparr>"
    by (rule enqueue_step [OF inv K i]) (simp_all add: p)
  ultimately show ?thesis by simp
next
  case Readunlock
  then have "step (i, c) s = \<lparr>lk = lk s, pcs = (pcs s)(i := Idle)\<rparr>"
    using p by (simp add: step_def)
  moreover have "lock_inv K \<lparr>lk = lk s, pcs = (pcs s)(i := Idle)\<rparr>"
    by (rule quiet_step [OF inv i]) (simp_all add: p)
  ultimately show ?thesis by simp
next
  case Try_writelock
  then have "step (i, c) s = \<lparr>lk = lk s, pcs = (pcs s)(i := Try_write (lk s))\<rparr>"
    using p by (simp add: step_def)
  moreover have "lock_inv K \<lparr>lk = lk s, pcs = (pcs s)(i := Try_write (lk s))\<rparr>"
    by (rule quiet_step [OF inv i]) (simp_all add: p)
  ultimately show ?thesis by simp
next
  case Writelock
  then have "step (i, c) s =
      \<lparr>lk = (lk s)\<lparr>next := next (lk s) + 1\<rparr>, pcs = (pcs s)(i := Write_active (next (lk s)))\<rparr>"
    using p by (simp add: step_def take_ticket_eq)
  moreover have "lock_inv K
      \<lparr>lk = (lk s)\<lparr>next := next (lk s) + 1\<rparr>, pcs = (pcs s)(i := Write_active (next (lk s)))\<rparr>"
    by (rule enqueue_step [OF inv K i]) (simp_all add: p)
  ultimately show ?thesis by simp
next
  case Writeunlock
  then have "step (i, c) s = \<lparr>lk = lk s, pcs = (pcs s)(i := Idle)\<rparr>"
    using p by (simp add: step_def)
  moreover have "lock_inv K \<lparr>lk = lk s, pcs = (pcs s)(i := Idle)\<rparr>"
    by (rule quiet_step [OF inv i]) (simp_all add: p)
  ultimately show ?thesis by simp
qed

lemma step_Try_read:
  assumes inv: "lock_inv K s" and K: "K \<le> 65536" and i: "i < K"
    and p: "pcs s i = Try_read spin old"
  shows "lock_inv K (step (i, c) s)"
proof (cases "readers old = next old \<and> lk s = old")
  case True
  then have "step (i, c) s =
      \<lparr>lk = (lk s)\<lparr>next := next (lk s) + 1, readers := next (lk s) + 1\<rparr>,
       pcs = (pcs s)(i := Reading)\<rparr>"
    using p by (simp add: step_def try_readlock_swap_cases)
  moreover have "lock_inv K
      \<lparr>lk = (lk s)\<lparr>next := next (lk s) + 1, readers := next (lk s) + 1\<rparr>,
       pcs = (pcs s)(i := Reading)\<rparr>"
    using True by (intro try_read_step [OF inv K i]) (simp_all add: p)
  ultimately show ?thesis by simp
next
  case False
  then have "try_readlock_swap old (lk s) = (EBUSY, lk s)"
    unfolding try_readlock_swap_cases by (rule if_not_P)
  then have "step (i, c) s = \<lparr>lk = lk s, pcs = (pcs s)(i := (if spin then Spinning else Idle))\<rparr>"
    using p by (simp add: step_def)
  moreover have "lock_inv K \<lparr>lk = lk s, pcs = (pcs s)(i := (if spin then Spinning else Idle))\<rparr>"
    by (rule quiet_step [OF inv i]) (simp_all add: p split: if_splits)
  ultimately show ?thesis by simp
qed

lemma step_Try_write:
  assumes inv: "lock_inv K s" and K: "K \<le> 65536" and i: "i < K"
    and p: "pcs s i = Try_write old"
  shows "lock_inv K (step (i, c) s)"
proof (cases "writers old = next old \<and> lk s = old")
  case True
  then have "step (i, c) s =
      \<lparr>lk = (lk s)\<lparr>next := next (lk s) + 1, writers_active := writers_active (lk s) + 1\<rparr>,
       pcs = (pcs s)(i := Writing)\<rparr>"
    using p by (simp add: step_def try_writelock_swap_cases)
  moreover have "lock_inv K
      \<lparr>lk = (lk s)\<lparr>next := next (lk s) + 1, writers_active := writers_active (lk s) + 1\<rparr>,
       pcs = (pcs s)(i := Writing)\<rparr>"
    using True by (intro try_write_step [OF inv K i]) (simp_all add: p)
  ultimately show ?thesis by simp
next
  case False
  then have "try_writelock_swap old (lk s) = (EBUSY, lk s)"
    unfolding try_writelock_swap_cases by (rule if_not_P)
  then have "step (i, c) s = \<lparr>lk = lk s, pcs = (pcs s)(i := Idle)\<rparr>"
    using p by (simp add: step_def)
  moreover have "lock_inv K \<lparr>lk = lk s, pcs = (pcs s)(i := Idle)\<rparr>"
    by (rule quiet_step [OF inv i]) (simp_all add: p)
  ultimately show ?thesis by simp
qed

lemma step_Read_wait:
  assumes inv: "lock_inv K s" and i: "i < K" and p: "pcs s i = Read_wait ticket"
  shows "lock_inv K (step (i, c) s)"
proof (cases "ticket = readers (lk s)")
  case True
  then have "step (i, c) s = \<lparr>lk = lk s, pcs = (pcs s)(i := Read_enter)\<rparr>"
    using p by (simp add: step_def)
  moreover have "lock_inv K \<lparr>lk = lk s, pcs = (pcs s)(i := Read_enter)\<rparr>"
    using True by (intro quiet_step [OF inv i]) (simp_all add: p)
  ultimately show ?thesis by simp
next
  case False
  then have "step (i, c) s = \<lparr>lk = lk s, pcs = (pcs s)(i := Read_wait ticket)\<rparr>"
    using p by (simp add: step_def)
  moreover have "lock_inv K \<lparr>lk = lk s, pcs = (pcs s)(i := Read_wait ticket)\<rparr>"
    by (rule quiet_step [OF inv i]) (simp_all add: p)
  ultimately show ?thesis by simp
qed

lemma step_Write_wait:
  assumes inv: "lock_inv K s" and K: "K \<le> 65536" and i: "i < K"
    and p: "pcs s i = Write_wait ticket"
  shows "lock_inv K (step (i, c) s)"
proof (cases "ticket = writers (lk s)")
  case True
  from inv have ot: "only_threads K (pcs s)" and qo: "queue_ok (lk s) (pcs s)"
    and ro: "readers_ok (lk s) (pcs s)"
    by (simp_all add: lock_inv_def)
  have iq: "in_queue (pcs s i)" and tk: "ticket_of (lk s) (pcs s i) = writers (lk s)"
    using p True by simp_all
  have hd: "ticket = readers (lk s)" and nr: "reading (pcs s) = {}"
    using writers_caught_up [OF ot K qo ro iq tk] p by simp_all
  have "step (i, c) s = \<lparr>lk = lk s, pcs = (pcs s)(i := Writing)\<rparr>"
    using p True by (simp add: step_def)
  moreover have "lock_inv K \<lparr>lk = lk s, pcs = (pcs s)(i := Writing)\<rparr>"
    using hd nr by (intro quiet_step [OF inv i]) (simp_all add: p)
  ultimately show ?thesis by simp
next
  case False
  then have "step (i, c) s = \<lparr>lk = lk s, pcs = (pcs s)(i := Write_wait ticket)\<rparr>"
    using p by (simp add: step_def)
  moreover have "lock_inv K \<lparr>lk = lk s, pcs = (pcs s)(i := Write_wait ticket)\<rparr>"
    by (rule quiet_step [OF inv i]) (simp_all add: p)
  ultimately show ?thesis by simp
qed

lemma step_Reading:
  assumes inv: "lock_inv K s" and i: "i < K" and p: "pcs s i = Reading"
  shows "lock_inv K (step (i, c) s)"
proof (cases "c = Readunlock")
  case True
  then have "step (i, c) s = \<lparr>lk = readunlock (lk s), pcs = (pcs s)(i := Idle)\<rparr>"
    using p by (simp add: step_def)
  then show ?thesis using read_release_step [OF inv i p] by simp
next
  case False
  then have "step (i, c) s = \<lparr>lk = lk s, pcs = (pcs s)(i := Reading)\<rparr>"
    using p by (cases c) (simp_all add: step_def)
  moreover have "lock_inv K \<lparr>lk = lk s, pcs = (pcs s)(i := Reading)\<rparr>"
    by (rule quiet_step [OF inv i]) (simp_all add: p)
  ultimately show ?thesis by simp
qed

lemma step_Writing:
  assumes inv: "lock_inv K s" and i: "i < K" and p: "pcs s i = Writing"
  shows "lock_inv K (step (i, c) s)"
proof (cases "c = Writeunlock")
  case True
  then have "step (i, c) s =
      \<lparr>lk = writeunlock_inactive (lk s), pcs = (pcs s)(i := Unlock_copy)\<rparr>"
    using p by (simp add: step_def)
  moreover have "lock_inv K
      \<lparr>lk = writeunlock_inactive (lk s), pcs = (pcs s)(i := Unlock_copy)\<rparr>"
    by (rule quiet_step [OF inv i]) (simp_all add: p writeunlock_inactive_def)
  ultimately show ?thesis by simp
next
  case False
  then have "step (i, c) s = \<lparr>lk = lk s, pcs = (pcs s)(i := Writing)\<rparr>"
    using p by (cases c) (simp_all add: step_def)
  moreover have "lock_inv K \<lparr>lk = lk s, pcs = (pcs s)(i := Writing)\<rparr>"
    by (rule quiet_step [OF inv i]) (simp_all add: p)
  ultimately show ?thesis by simp
qed

lemma step_other:
  assumes inv: "lock_inv K s" and K: "K \<le> 65536" and i: "i < K"
  shows "pcs s i = Spinning \<Longrightarrow> lock_inv K (step (i, c) s)"
    and "pcs s i = Read_enter \<Longrightarrow> lock_inv K (step (i, c) s)"
    and "pcs s i = Read_store v \<Longrightarrow> lock_inv K (step (i, c) s)"
    and "pcs s i = Write_active ticket \<Longrightarrow> lock_inv K (step (i, c) s)"
    and "pcs s i = Unlock_copy \<Longrightarrow> lock_inv K (step (i, c) s)"
    and "pcs s i = Unlock_store new \<Longrightarrow> lock_inv K (step (i, c) s)"
proof -
  assume p: "pcs s i = Spinning"
  then have "step (i, c) s = \<lparr>lk = lk s, pcs = (pcs s)(i := Try_read True (lk s))\<rparr>"
    by (simp add: step_def)
  moreover have "lock_inv K \<lparr>lk = lk s, pcs = (pcs s)(i := Try_read True (lk s))\<rparr>"
    by (rule quiet_step [OF inv i]) (simp_all add: p)
  ultimately show "lock_inv K (step (i, c) s)" by simp
next
  assume p: "pcs s i = Read_enter"
  then have "step (i, c) s = \<lparr>lk = lk s, pcs = (pcs s)(i := Read_store (readers (lk s)))\<rparr>"
    by (simp add: step_def)
  moreover have "lock_inv K \<lparr>lk = lk s, pcs = (pcs s)(i := Read_store (readers (lk s)))\<rparr>"
    by (rule quiet_step [OF inv i]) (simp_all add: p)
  ultimately show "lock_inv K (step (i, c) s)" by simp
next
  assume p: "pcs s i = Read_store v"
  then have "step (i, c) s = \<lparr>lk = (lk s)\<lparr>readers := v + 1\<rparr>, pcs = (pcs s)(i := Reading)\<rparr>"
    by (simp add: step_def)
  then show "lock_inv K (step (i, c) s)" using read_enter_step [OF inv i p] by simp
next
  assume p: "pcs s i = Write_active ticket"
  then have "step (i, c) s =
      \<lparr>lk = writelock_active (lk s), pcs = (pcs s)(i := Write_wait ticket)\<rparr>"
    by (simp add: step_def)
  moreover have "lock_inv K
      \<lparr>lk = writelock_active (lk s), pcs = (pcs s)(i := Write_wait ticket)\<rparr>"
    by (rule quiet_step [OF inv i]) (simp_all add: p writelock_active_def)
  ultimately show "lock_inv K (step (i, c) s)" by simp
next
  assume p: "pcs s i = Unlock_copy"
  then have "step (i, c) s = \<lparr>lk = lk s, pcs = (pcs s)(i := Unlock_store (lk s))\<rparr>"
    by (simp add: step_def)
  moreover have "lock_inv K \<lparr>lk = lk s, pcs = (pcs s)(i := Unlock_store (lk s))\<rparr>"
    by (rule quiet_step [OF inv i]) (simp_all add: p)
  ultimately show "lock_inv K (step (i, c) s)" by simp
next
  assume p: "pcs s i = Unlock_store new"
  then have "step (i, c) s =
      \<lparr>lk = writeunlock_store new (lk s), pcs = (pcs s)(i := Idle)\<rparr>"
    by (simp add: step_def)
  then show "lock_inv K (step (i, c) s)" using write_release_step [OF inv i p] by simp
qed

lemma lock_inv_step:
  assumes "lock_inv K s" and "K \<le> 65536" and "i < K"
  shows "lock_inv K (step (i, c) s)"
  using assms
  by (cases "pcs s i")
     (simp_all only: step_Idle step_Try_read step_Try_write step_Read_wait step_Write_wait
        step_Reading step_Writing step_other)

lemma lock_inv_run:
  assumes "K \<le> 65536" and "\<forall>x \<in> set xs. fst x < K" and "lock_inv K s"
  shows "lock_inv K (run xs s)"
  using assms(2,3)
proof (induction xs arbitrary: s)
  case Nil
  then show ?case by simp
next
  case (Cons x xs)
  obtain i c where x: "x = (i, c)" by (cases x)
  with Cons.prems have "i < K" by simp
  with Cons.prems(2) assms(1) have "lock_inv K (step x s)" unfolding x by (rule lock_inv_step)
  with Cons show ?case by simp
qed

lemma lock_inv_mutex:
  assumes inv: "lock_inv K s" and h: "holds_write (pcs s t)" and ne: "t' \<noteq> t"
  shows "\<not> holds_write (pcs s t')" and "\<not> holds_read (pcs s t')"
proof -
  from inv have qo: "queue_ok (lk s) (pcs s)" and ro: "readers_ok (lk s) (pcs s)"
    by (simp_all add: lock_inv_def)
  have hd: "in_queue (pcs s t)" "ticket_of (lk s) (pcs s t) = readers (lk s)"
    using h by (simp_all add: holds_write_in_queue holds_write_ticket)
  show "\<not> holds_write (pcs s t')" using head_alone(1) [OF qo hd ne] .
  have "reading (pcs s) = {}" using ro h unfolding readers_ok_def by blast
  then show "\<not> holds_read (pcs s t')" by (auto simp: holds_read_def reading_def)
qed

subsection \<open>A caller alone\<close>

text \<open>
  When no other caller steps in between, the steps of one caller add up to the
  functions of the first part.
\<close>

lemma alone_try_readlock:
  "pcs s t = Idle \<Longrightarrow>
   lk (run (replicate 2 (t, Try_readlock)) s) = snd (try_readlock (lk s)) \<and>
   pcs (run (replicate 2 (t, Try_readlock)) s) t
     = (if fst (try_readlock (lk s)) = Success then Reading else Idle)"
  by (simp add: numeral_2_eq_2 step_def try_readlock_def try_readlock_swap_cases Let_def)

lemma alone_try_writelock:
  "pcs s t = Idle \<Longrightarrow>
   lk (run (replicate 2 (t, Try_writelock)) s) = snd (try_writelock (lk s)) \<and>
   pcs (run (replicate 2 (t, Try_writelock)) s) t
     = (if fst (try_writelock (lk s)) = Success then Writing else Idle)"
  by (simp add: numeral_2_eq_2 step_def try_writelock_def try_writelock_swap_cases Let_def)

lemma alone_readlock:
  "pcs s t = Idle \<Longrightarrow> readlock (lk s) = Some l' \<Longrightarrow>
   lk (run (replicate 4 (t, Readlock)) s) = l' \<and>
   pcs (run (replicate 4 (t, Readlock)) s) t = Reading"
  by (cases "readers (lk s) = next (lk s)")
     (auto simp: numeral_eq_Suc step_def take_ticket_eq readlock_free readlock_blocked)

lemma alone_writelock:
  "pcs s t = Idle \<Longrightarrow> writelock (lk s) = Some l' \<Longrightarrow>
   lk (run (replicate 3 (t, Writelock)) s) = l' \<and>
   pcs (run (replicate 3 (t, Writelock)) s) t = Writing"
  by (cases "writers (lk s) = next (lk s)")
     (auto simp: numeral_eq_Suc step_def take_ticket_eq writelock_free writelock_blocked
        writelock_active_def atomic_add16_def)

lemma alone_readunlock:
  "pcs s t = Reading \<Longrightarrow>
   lk (run [(t, Readunlock)] s) = readunlock (lk s) \<and> pcs (run [(t, Readunlock)] s) t = Idle"
  by (simp add: step_def)

lemma alone_writeunlock:
  "pcs s t = Writing \<Longrightarrow>
   lk (run (replicate 3 (t, Writeunlock)) s) = writeunlock (lk s) \<and>
   pcs (run (replicate 3 (t, Writeunlock)) s) t = Idle"
  by (simp add: numeral_eq_Suc step_def writeunlock_def Let_def)

subsection \<open>The theorem and its limit\<close>

lemma run_append: "run (xs @ ys) s = run ys (run xs s)"
  by (induction xs arbitrary: s) simp_all

lemma step_Writelock_Idle:
  "pcs s a = Idle \<Longrightarrow>
   step (a, Writelock) s =
     \<lparr>lk = (lk s)\<lparr>next := next (lk s) + 1\<rparr>,
      pcs = (pcs s)(a := Write_active (next (lk s)))\<rparr>"
  by (simp add: step_def take_ticket_eq)

lemma queue_writers:
  assumes "\<forall>t. a \<le> t \<and> t < a + n \<longrightarrow> pcs s t = Idle"
  shows "lk (run (map (\<lambda>t. (t, Writelock)) [a..<a + n]) s)
           = (lk s)\<lparr>next := next (lk s) + of_nat n\<rparr> \<and>
         (\<forall>t. t < a \<or> a + n \<le> t \<longrightarrow>
            pcs (run (map (\<lambda>t. (t, Writelock)) [a..<a + n]) s) t = pcs s t)"
  using assms
proof (induction n arbitrary: a s)
  case 0
  show ?case by simp
next
  case (Suc n)
  let ?s = "step (a, Writelock) s"
  have idle: "pcs s a = Idle" using Suc.prems by simp
  have st: "?s = \<lparr>lk = (lk s)\<lparr>next := next (lk s) + 1\<rparr>,
                  pcs = (pcs s)(a := Write_active (next (lk s)))\<rparr>"
    using idle by (rule step_Writelock_Idle)
  have up: "[a..<a + Suc n] = a # [Suc a..<Suc a + n]"
    by (simp add: upt_conv_Cons)
  have pre: "\<forall>t. Suc a \<le> t \<and> t < Suc a + n \<longrightarrow> pcs ?s t = Idle"
    using Suc.prems by (simp add: st)
  have lkr: "lk (run (map (\<lambda>t. (t, Writelock)) [Suc a..<Suc a + n]) ?s)
               = (lk ?s)\<lparr>next := next (lk ?s) + of_nat n\<rparr>"
    using Suc.IH [OF pre] by (rule conjunct1)
  have pcr: "t < Suc a \<or> Suc a + n \<le> t \<Longrightarrow>
               pcs (run (map (\<lambda>t. (t, Writelock)) [Suc a..<Suc a + n]) ?s) t = pcs ?s t" for t
    using Suc.IH [OF pre] by blast
  have r: "run (map (\<lambda>t. (t, Writelock)) [a..<a + Suc n]) s
             = run (map (\<lambda>t. (t, Writelock)) [Suc a..<Suc a + n]) ?s"
    unfolding up by simp
  show ?case
    unfolding r
  proof (intro conjI allI impI)
    show "lk (run (map (\<lambda>t. (t, Writelock)) [Suc a..<Suc a + n]) ?s)
            = (lk s)\<lparr>next := next (lk s) + of_nat (Suc n)\<rparr>"
      unfolding lkr by (simp add: st add.assoc)
  next
    fix t assume t: "t < a \<or> a + Suc n \<le> t"
    then have "t < Suc a \<or> Suc a + n \<le> t" by auto
    from pcr [OF this] t
    show "pcs (run (map (\<lambda>t. (t, Writelock)) [Suc a..<Suc a + n]) ?s) t = pcs s t"
      by (auto simp: st)
  qed
qed

lemma four_readlock_steps:
  "run (replicate 4 (0, Readlock)) init_config
     = \<lparr>lk = \<lparr>writers = 0, readers = 1, next = 1, writers_active = 0\<rparr>,
        pcs = (\<lambda>t. Idle)(0 := Reading)\<rparr>"
  by (simp add: numeral_eq_Suc step_def init_config_def rwlock_init_def zero_lock_def
      take_ticket_eq)

lemma try_write_two_steps:
  assumes "pcs s t = Idle" and "writers (lk s) = next (lk s)"
  shows "pcs (run (replicate 2 (t, Try_writelock)) s) t = Writing"
    and "u \<noteq> t \<Longrightarrow> pcs (run (replicate 2 (t, Try_writelock)) s) u = pcs s u"
  using assms by (simp_all add: numeral_2_eq_2 step_def try_writelock_swap_cases)

text \<open>
  C1 (as amended). For every interleaving of the steps of at most 65536 callers, each
  of which acquires only while it holds nothing and releases only what it holds:
  while one caller holds the write lock, no other caller holds the write lock or a
  read lock. So no write acquisition completes while a reader or writer still holds
  the lock, and no read acquisition completes while a writer holds it.
\<close>

theorem mutual_exclusion:
  "K \<le> 65536 \<Longrightarrow> \<forall>x \<in> set xs. fst x < K \<Longrightarrow>
   holds_write (pcs (run xs init_config) t) \<Longrightarrow> t' \<noteq> t \<Longrightarrow>
   \<not> holds_write (pcs (run xs init_config) t') \<and> \<not> holds_read (pcs (run xs init_config) t')"
  using lock_inv_mutex [OF lock_inv_run [OF _ _ lock_inv_init]] by blast

theorem mutual_exclusion_witness:
  "(2::nat) \<le> 65536 \<and>
   holds_write (pcs (run (replicate 3 (0, Writelock) @ replicate 2 (1, Try_readlock)) init_config) 0) \<and>
   (1::nat) \<noteq> 0 \<and>
   \<not> holds_write (pcs (run (replicate 3 (0, Writelock) @ replicate 2 (1, Try_readlock)) init_config) 1) \<and>
   \<not> holds_read (pcs (run (replicate 3 (0, Writelock) @ replicate 2 (1, Try_readlock)) init_config) 1)"
proof -
  have h: "holds_write (pcs (run (replicate 3 (0, Writelock) @ replicate 2 (1, Try_readlock)) init_config) 0)"
    by (simp add: numeral_eq_Suc step_def init_config_def rwlock_init_def zero_lock_def
        take_ticket_eq writelock_active_def atomic_add16_def try_readlock_swap_cases)
  have b: "\<forall>x \<in> set (replicate 3 (0, Writelock) @ replicate 2 (1, Try_readlock)). fst x < (2::nat)"
    by auto
  show ?thesis
    using mutual_exclusion [of 2 "replicate 3 (0, Writelock) @ replicate 2 (1, Try_readlock)" 0 1] h b
    by simp
qed

text \<open>
  C1 as stated fails when the tickets wrap: with 65537 callers, caller 0 holds a read
  lock, 65535 callers queue for a write lock, and \<open>next\<close> is back at the value of
  \<open>writers\<close>, so the try of caller 65536 for the write lock succeeds while caller 0
  still holds its read lock.
\<close>

theorem mutual_exclusion_wrap_counterexample:
  "holds_read (pcs (run wrap_schedule init_config) 0) \<and>
   holds_write (pcs (run wrap_schedule init_config) 65536)"
proof -
  let ?s1 = "run (replicate 4 (0, Readlock)) init_config"
  let ?s2 = "run (map (\<lambda>t. (t, Writelock)) [1..<1 + 65535]) ?s1"
  let ?s3 = "run (replicate 2 (65536, Try_writelock)) ?s2"
  have idle: "\<forall>t. 1 \<le> t \<and> t < 1 + 65535 \<longrightarrow> pcs ?s1 t = Idle"
    by (simp add: four_readlock_steps)
  have lk2: "lk ?s2 = (lk ?s1)\<lparr>next := next (lk ?s1) + of_nat 65535\<rparr>"
    using queue_writers [OF idle] by (rule conjunct1)
  have pc2: "t < 1 \<or> 1 + 65535 \<le> t \<Longrightarrow> pcs ?s2 t = pcs ?s1 t" for t
    using queue_writers [OF idle] by blast
  have w: "writers (lk ?s2) = next (lk ?s2)"
    unfolding lk2 by (simp add: four_readlock_steps)
  have p0: "pcs ?s2 0 = Reading" using pc2 [of 0] by (simp add: four_readlock_steps)
  have p1: "pcs ?s2 65536 = Idle" using pc2 [of 65536] by (simp add: four_readlock_steps)
  have "pcs ?s3 65536 = Writing" using p1 w by (rule try_write_two_steps(1))
  moreover have "pcs ?s3 0 = Reading"
    using try_write_two_steps(2) [OF p1 w, of 0] p0 by simp
  moreover have "[1..<65536] = [1..<1 + 65535]" by simp
  then have "run wrap_schedule init_config = ?s3"
    by (simp only: wrap_schedule_def run_append)
  ultimately show ?thesis by (simp add: holds_read_def)
qed

section \<open>Counting tickets\<close>

lemma outstanding_iff: "outstanding p \<longleftrightarrow> in_queue p \<or> p = Reading"
  by (cases p) simp_all










lemma empty_range: "(a \<le> t \<and> t < (a::nat)) = False"
  by auto



lemma run_concat_snoc:
  "run (concat (map g [a..<a + Suc n])) s = run (g (a + n)) (run (concat (map g [a..<a + n])) s)"
  by (simp add: run_append)

lemma many_try_readers:
  assumes "\<forall>t. a \<le> t \<and> t < a + n \<longrightarrow> pcs s t = Idle"
    and "readers (lk s) = next (lk s)"
  shows "run (concat (map (\<lambda>t. replicate 2 (t, Try_readlock)) [a..<a + n])) s
     = \<lparr>lk = (lk s)\<lparr>next := next (lk s) + of_nat n, readers := next (lk s) + of_nat n\<rparr>,
        pcs = (\<lambda>t. if a \<le> t \<and> t < a + n then Reading else pcs s t)\<rparr>"
  using assms(1)
proof (induction n)
  case 0
  show ?case using assms(2) [symmetric] by (simp add: empty_range)
next
  case (Suc n)
  let ?sn = "\<lparr>lk = (lk s)\<lparr>next := next (lk s) + of_nat n, readers := next (lk s) + of_nat n\<rparr>,
        pcs = (\<lambda>t. if a \<le> t \<and> t < a + n then Reading else pcs s t)\<rparr>"
  have pre: "\<forall>t. a \<le> t \<and> t < a + n \<longrightarrow> pcs s t = Idle" using Suc.prems by simp
  have idle: "pcs s (a + n) = Idle" using Suc.prems by simp
  have "run (concat (map (\<lambda>t. replicate 2 (t, Try_readlock)) [a..<a + Suc n])) s
      = run (replicate 2 (a + n, Try_readlock)) ?sn"
    unfolding run_concat_snoc Suc.IH [OF pre] by simp
  also have "\<dots> = \<lparr>lk = (lk s)\<lparr>next := next (lk s) + of_nat (Suc n),
                              readers := next (lk s) + of_nat (Suc n)\<rparr>,
        pcs = (\<lambda>t. if a \<le> t \<and> t < a + Suc n then Reading else pcs s t)\<rparr>"
    using idle
    by (auto simp: numeral_2_eq_2 step_def try_readlock_swap_cases fun_eq_iff add.assoc)
  finally show ?case .
qed


lemma replicate_unfold:
  "replicate 2 x = [x, x]" "replicate 3 x = [x, x, x]" "replicate 4 x = [x, x, x, x]"
  by (simp_all add: numeral_eq_Suc)

lemmas eval_steps =
  replicate_unfold counted_step_def step_def take_ticket_eq advance_def
  try_readlock_swap_cases try_writelock_swap_cases writelock_active_def atomic_add16_def
  writeunlock_inactive_def atomic_sub16_def writeunlock_store_def store_wr_def readunlock_eq
  init_config_def zero_counts_def rwlock_init_def zero_lock_def


lemma queued_writer_state:
  "lk (run queued_writer_schedule init_config)
     = \<lparr>writers = 0, readers = 3, next = 4, writers_active = 1\<rparr>"
  "pcs (run queued_writer_schedule init_config) 3 = Write_wait 3"
  by (simp_all add: queued_writer_schedule_def eval_steps)




section \<open>The diagnostic query\<close>

lemma islocked_outstanding:
  assumes inv: "lock_inv K s" and K: "K < 65536"
  shows "rwlock_islocked (lk s) \<longleftrightarrow> (\<exists>t. outstanding (pcs s t))"
proof -
  let ?Q = "card (queued (pcs s))" and ?R = "card (reading (pcs s))"
  have ot: "only_threads K (pcs s)" using inv by (simp add: lock_inv_def)
  have fin: "finite (queued (pcs s))" "finite (reading (pcs s))"
    using ot by (rule only_threads_finite)+
  have "?Q + ?R \<le> K" using ot by (rule only_threads_card)
  then have small: "?Q + ?R < 65536" "?Q < 65536" using K by simp_all
  have q: "next (lk s) - readers (lk s) = of_nat ?Q"
    and r: "readers (lk s) - writers (lk s) = of_nat ?R"
    using inv by (simp_all add: lock_inv_def queue_ok_def readers_ok_def)
  have "next (lk s) - writers (lk s) = (next (lk s) - readers (lk s)) + (readers (lk s) - writers (lk s))"
    by simp
  then have w: "next (lk s) - writers (lk s) = of_nat (?Q + ?R)" unfolding q r by simp
  have a: "(writers (lk s) = next (lk s)) = (?Q + ?R = 0)"
  proof
    assume "writers (lk s) = next (lk s)"
    then have "(of_nat (?Q + ?R) :: u16) = 0" using w by simp
    with small(1) show "?Q + ?R = 0" by (rule of_nat_small_zero)
  next
    assume "?Q + ?R = 0"
    then have "next (lk s) - writers (lk s) = 0" using w by simp
    then show "writers (lk s) = next (lk s)" by simp
  qed
  have b: "(readers (lk s) = next (lk s)) = (?Q = 0)"
  proof
    assume "readers (lk s) = next (lk s)"
    then have "(of_nat ?Q :: u16) = 0" using q by simp
    with small(2) show "?Q = 0" by (rule of_nat_small_zero)
  next
    assume "?Q = 0"
    then have "next (lk s) - readers (lk s) = 0" using q by simp
    then show "readers (lk s) = next (lk s)" by simp
  qed
  have "rwlock_islocked (lk s) \<longleftrightarrow> queued (pcs s) \<noteq> {} \<or> reading (pcs s) \<noteq> {}"
    unfolding rwlock_islocked_def a b using fin by auto
  also have "\<dots> \<longleftrightarrow> (\<exists>t. outstanding (pcs s t))"
    by (auto simp: outstanding_iff queued_def reading_def)
  finally show ?thesis .
qed

lemma handover_state:
  "lk (run handover_schedule init_config)
     = \<lparr>writers = 1, readers = 1, next = 2, writers_active = 1\<rparr>"
  "pcs (run handover_schedule init_config) = (pcs init_config)(1 := Write_wait 1)"
  by (simp_all add: handover_schedule_def eval_steps fun_eq_iff)

text \<open>
  C7 (as amended). For every lock word \<open>rwlock_islocked\<close> is true if and only if
  \<open>writers \<noteq> next\<close> or \<open>readers \<noteq> next\<close>; it is false on the initialised word; and
  in every state reached from the initialised lock by any interleaving of the steps of
  fewer than 65536 callers, it is true exactly when some caller has an outstanding
  request: from the moment an acquire takes its ticket (a blocking acquire that still
  waits included) until the matching release is complete.
\<close>

theorem islocked_accuracy:
  "(rwlock_islocked l \<longleftrightarrow> writers l \<noteq> next l \<or> readers l \<noteq> next l) \<and>
   \<not> rwlock_islocked (lk init_config) \<and>
   (K < 65536 \<longrightarrow> (\<forall>x \<in> set xs. fst x < K) \<longrightarrow>
      (rwlock_islocked (lk (run xs init_config))
         \<longleftrightarrow> (\<exists>t. outstanding (pcs (run xs init_config) t))))"
proof -
  have "\<not> rwlock_islocked (lk init_config)"
    by (simp add: rwlock_islocked_def init_config_def rwlock_init_def zero_lock_def)
  moreover have "K < 65536 \<longrightarrow> (\<forall>x \<in> set xs. fst x < K) \<longrightarrow>
      (rwlock_islocked (lk (run xs init_config))
         \<longleftrightarrow> (\<exists>t. outstanding (pcs (run xs init_config) t)))"
  proof (intro impI)
    assume K: "K < 65536" and xs: "\<forall>x \<in> set xs. fst x < K"
    from K have "K \<le> 65536" by simp
    then have "lock_inv K (run xs init_config)"
      using xs lock_inv_init by (rule lock_inv_run)
    then show "rwlock_islocked (lk (run xs init_config))
         \<longleftrightarrow> (\<exists>t. outstanding (pcs (run xs init_config) t))"
      using K by (rule islocked_outstanding)
  qed
  ultimately show ?thesis by (simp add: rwlock_islocked_def)
qed

theorem islocked_accuracy_witness:
  "(4::nat) < 65536 \<and>
   lk (run queued_writer_schedule init_config)
     = \<lparr>writers = 0, readers = 3, next = 4, writers_active = 1\<rparr> \<and>
   rwlock_islocked (lk (run queued_writer_schedule init_config)) \<and>
   outstanding (pcs (run queued_writer_schedule init_config) 3)"
proof -
  have b: "\<forall>x \<in> set queued_writer_schedule. fst x < 4"
    by (auto simp: queued_writer_schedule_def)
  have l: "rwlock_islocked (lk (run queued_writer_schedule init_config))"
    by (simp add: queued_writer_state rwlock_islocked_def)
  show ?thesis
    using islocked_accuracy
      [of "lk (run queued_writer_schedule init_config)" 4 queued_writer_schedule] b l
      queued_writer_state
    by auto
qed

text \<open>
  C7 as stated fails in two ways. Without any wrap: after caller 0 has released the
  write lock and while caller 1 still waits for it, no acquire has returned without
  being released, yet the word is \<open>writers = 1\<close>, \<open>readers = 1\<close>, \<open>next = 2\<close> and
  \<open>rwlock_islocked\<close> is true. With wrap: when 65536 callers hold a read lock the word
  is all-zero again and \<open>rwlock_islocked\<close> is false.
\<close>

theorem islocked_counterexample:
  "lk (run handover_schedule init_config)
     = \<lparr>writers = 1, readers = 1, next = 2, writers_active = 1\<rparr> \<and>
   pcs (run handover_schedule init_config) = (pcs init_config)(1 := Write_wait 1) \<and>
   rwlock_islocked (lk (run handover_schedule init_config)) \<and>
   lk (run all_readers_schedule init_config) = zero_lock \<and>
   holds_read (pcs (run all_readers_schedule init_config) 0) \<and>
   holds_read (pcs (run all_readers_schedule init_config) 65535) \<and>
   \<not> rwlock_islocked (lk (run all_readers_schedule init_config))"
proof -
  have idle: "\<forall>t. 0 \<le> t \<and> t < 0 + 65536 \<longrightarrow> pcs init_config t = Idle"
    by (simp add: init_config_def)
  have free: "readers (lk init_config) = next (lk init_config)"
    by (simp add: init_config_def rwlock_init_def zero_lock_def)
  have "[0..<65536] = [0..<0 + 65536]" by simp
  then have "run all_readers_schedule init_config
      = run (concat (map (\<lambda>t. replicate 2 (t, Try_readlock)) [0..<0 + 65536])) init_config"
    by (simp only: all_readers_schedule_def)
  also note many_try_readers [OF idle free]
  finally have r: "run all_readers_schedule init_config
      = \<lparr>lk = (lk init_config)\<lparr>next := next (lk init_config) + of_nat 65536,
                                 readers := next (lk init_config) + of_nat 65536\<rparr>,
         pcs = (\<lambda>t. if 0 \<le> t \<and> t < 0 + 65536 then Reading else pcs init_config t)\<rparr>" .
  have "lk (run all_readers_schedule init_config) = zero_lock"
    and "holds_read (pcs (run all_readers_schedule init_config) 0)"
    and "holds_read (pcs (run all_readers_schedule init_config) 65535)"
    and "\<not> rwlock_islocked (lk (run all_readers_schedule init_config))"
    unfolding r
    by (simp_all add: init_config_def rwlock_init_def zero_lock_def holds_read_def
        rwlock_islocked_def)
  then show ?thesis
    using handover_state by (simp add: rwlock_islocked_def)
qed

end
